theory Spec2Isabelle
  imports Complex_Main "HOL-Library.Char_ord" "HOL-Library.List_Lexorder"
begin

section \<open>DREME: discriminative regular expression motif elicitation\<close>

text \<open>
  A shallow embedding of the search core of \<^verbatim>\<open>dreme.py\<close>. Python strings are
  \<^typ>\<open>string\<close> (byte strings, compared lexicographically by byte value), Python
  integers are \<^typ>\<open>int\<close>, dictionaries are maps, and every exception the modelled
  code can raise is a value of \<open>py_error\<close>. Python floats are idealised as
  \<^typ>\<open>real\<close>.
\<close>

subsection \<open>Errors\<close>

datatype py_error = KeyError | IndexError | ZeroDivisionError | ValueError | TimeoutError

fun bind_err :: "py_error + 'a \<Rightarrow> ('a \<Rightarrow> py_error + 'b) \<Rightarrow> py_error + 'b" where
  "bind_err (Inl e) f = Inl e"
| "bind_err (Inr x) f = f x"

subsection \<open>Alphabet tables\<close>


text \<open>\<^verbatim>\<open>_ambig_to_dna\<close>: the bases each IUPAC letter stands for.\<close>

definition ambig_to_dna :: "(char \<times> string) list" where
  "ambig_to_dna =
    [(CHR ''A'', ''A''), (CHR ''C'', ''C''), (CHR ''G'', ''G''), (CHR ''T'', ''T''),
     (CHR ''R'', ''AG''), (CHR ''Y'', ''CT''), (CHR ''K'', ''GT''), (CHR ''M'', ''AC''),
     (CHR ''S'', ''CG''), (CHR ''W'', ''AT''), (CHR ''B'', ''CGT''), (CHR ''D'', ''AGT''),
     (CHR ''H'', ''ACT''), (CHR ''V'', ''ACG''), (CHR ''N'', ''ACGT'')]"

text \<open>\<^verbatim>\<open>_alph\<close>: the keys of the lookup table of the basic alphabet.\<close>

definition alph :: string where
  "alph = ''ACGT''"

text \<open>\<^verbatim>\<open>_dna_ambigs\<close>: the order of the dynamic programming expansion.\<close>

definition dna_ambigs :: string where
  "dna_ambigs = ''RYKMSWBDHVN''"

text \<open>\<^verbatim>\<open>_dna_ambig_mappings\<close>: the two letters each ambiguity code is built from.\<close>

definition dna_ambig_mappings :: "(char \<times> string) list" where
  "dna_ambig_mappings =
    [(CHR ''R'', ''AG''), (CHR ''M'', ''AC''), (CHR ''W'', ''AT''), (CHR ''Y'', ''CT''),
     (CHR ''S'', ''CG''), (CHR ''K'', ''GT''), (CHR ''H'', ''AY''), (CHR ''V'', ''AS''),
     (CHR ''D'', ''AK''), (CHR ''B'', ''CK''), (CHR ''N'', ''AB'')]"

text \<open>The 15-symbol IUPAC DNA alphabet of the data model.\<close>

definition iupac :: "char set" where
  "iupac = set ''ACGTRYKMSWBDHVN''"

subsection \<open>Reverse complement and canonical form\<close>

text \<open>
  \<^verbatim>\<open>string.maketrans("ACGTURYKMBVDHSWN", "TGCAAYRMKVBHDSWN")\<close>: a letter outside
  the first string is left as it is.
\<close>

definition rc_table :: "(char \<times> char) list" where
  "rc_table = zip ''ACGTURYKMBVDHSWN'' ''TGCAAYRMKVBHDSWN''"

definition translate_rc :: "char \<Rightarrow> char" where
  "translate_rc c = (case map_of rc_table c of Some d \<Rightarrow> d | None \<Rightarrow> c)"

definition get_rc :: "string \<Rightarrow> string" where
  "get_rc re = rev (map translate_rc re)"

text \<open>Python's \<^verbatim>\<open>min(a, b)\<close> on two strings: \<open>b\<close> only when it is strictly smaller.\<close>

definition py_min :: "string \<Rightarrow> string \<Rightarrow> string" where
  "py_min a b = (if b < a then b else a)"

text \<open>The key under which a pattern is stored: \<^verbatim>\<open>min(word, get_rc(word))\<close>.\<close>

definition canonical :: "string \<Rightarrow> string" where
  "canonical w = py_min w (get_rc w)"

subsection \<open>Enrichment scorer\<close>

text \<open>
  \<^verbatim>\<open>log_getFETprob\<close> lives in the module \<^verbatim>\<open>hypergeometric\<close>, outside this
  file; it is a parameter \<open>fet\<close> here, returning the five log probabilities of which
  \<^verbatim>\<open>getLogPvalue\<close> reads the one at index 4. The scorer is modelled together with
  the log of the calls it makes to that primitive: each call appends its four arguments.
\<close>

type_synonym fet_result = "real \<times> real \<times> real \<times> real \<times> real"
type_synonym fet_call = "int \<times> int \<times> int \<times> int"

definition fet_index4 :: "fet_result \<Rightarrow> real" where
  "fet_index4 r = (case r of (_, _, _, _, x) \<Rightarrow> x)"

definition getLogPvalue_traced ::
  "(int \<Rightarrow> int \<Rightarrow> int \<Rightarrow> int \<Rightarrow> fet_result) \<Rightarrow> int \<Rightarrow> int \<Rightarrow> int \<Rightarrow> int
    \<Rightarrow> fet_call list \<Rightarrow> real \<times> fet_call list" where
  "getLogPvalue_traced fet p P n N calls =
     (if p * N > n * P
      then (fet_index4 (fet (N - n) n (P - p) p), calls @ [(N - n, n, P - p, p)])
      else (0, calls))"

definition getLogPvalue ::
  "(int \<Rightarrow> int \<Rightarrow> int \<Rightarrow> int \<Rightarrow> fet_result) \<Rightarrow> int \<Rightarrow> int \<Rightarrow> int \<Rightarrow> int \<Rightarrow> real" where
  "getLogPvalue fet p P n N = fst (getLogPvalue_traced fet p P n N [])"

subsection \<open>Matcher\<close>

text \<open>
  \<^verbatim>\<open>make_dna_re\<close> builds the text of a Python regular expression, one character
  class \<^verbatim>\<open>[...]\<close> per letter of the pattern, the pattern's expansion and (unless
  \<open>given_only\<close>) that of its reverse complement joined by \<^verbatim>\<open>|\<close>, the whole wrapped
  in \<^verbatim>\<open>^(...)$\<close> when \<open>complete\<close>. The compiled program is modelled by its
  structure: the list of alternatives, each a list of character classes, and the anchoring
  flag. A letter with no entry in \<^verbatim>\<open>_ambig_to_dna\<close> raises \<^verbatim>\<open>KeyError\<close>.
\<close>

record dna_re =
  alts :: "string list list"
  complete :: bool

fun class_expansion :: "string \<Rightarrow> py_error + string list" where
  "class_expansion [] = Inr []"
| "class_expansion (c # cs) =
     (case map_of ambig_to_dna c of
        None \<Rightarrow> Inl KeyError
      | Some d \<Rightarrow> bind_err (class_expansion cs) (\<lambda>r. Inr (d # r)))"

definition make_dna_re :: "string \<Rightarrow> bool \<Rightarrow> bool \<Rightarrow> py_error + dna_re" where
  "make_dna_re iupac_re given_only complete_flag =
     bind_err (class_expansion iupac_re) (\<lambda>RE.
     bind_err (if \<not> given_only
               then bind_err (class_expansion (get_rc iupac_re)) (\<lambda>rc_RE. Inr [RE, rc_RE])
               else Inr [RE]) (\<lambda>as.
     Inr \<lparr>alts = as, complete = complete_flag\<rparr>))"

text \<open>
  Matching follows Python's \<^verbatim>\<open>re\<close>: at a start position the alternatives are tried
  in order, each class consuming one character; \<^verbatim>\<open>^\<close> holds only at the start of the
  string and \<^verbatim>\<open>$\<close> at its end or before a final newline. \<open>match_here\<close> gives the
  length of the match starting at the head of the remaining string.
\<close>

fun match_classes :: "string list \<Rightarrow> string \<Rightarrow> bool" where
  "match_classes [] s = True"
| "match_classes (cl # cls) [] = False"
| "match_classes (cl # cls) (c # s) = (c \<in> set cl \<and> match_classes cls s)"

definition at_end :: "string \<Rightarrow> bool" where
  "at_end s = (s = [] \<or> s = [CHR 0x0A])"

fun first_alt :: "bool \<Rightarrow> string list list \<Rightarrow> string \<Rightarrow> nat option" where
  "first_alt ce [] s = None"
| "first_alt ce (a # as) s =
     (if match_classes a s \<and> (ce \<longrightarrow> at_end (drop (length a) s)) then Some (length a)
      else first_alt ce as s)"

definition match_here :: "dna_re \<Rightarrow> bool \<Rightarrow> string \<Rightarrow> nat option" where
  "match_here ms at_start s =
     (if complete ms \<and> \<not> at_start then None else first_alt (complete ms) (alts ms) s)"

text \<open>
  \<^verbatim>\<open>ms.search(s)\<close> scans the start positions from left to right; \<^verbatim>\<open>ms.sub(repl, s)\<close>
  replaces the leftmost non-overlapping matches, resuming after each match (after an
  empty match, one character further, copying that character). All alternatives that
  \<^verbatim>\<open>make_dna_re\<close> compiles have the same width, so the matches of one program are
  all empty or all non-empty.
\<close>

fun search_from :: "dna_re \<Rightarrow> bool \<Rightarrow> string \<Rightarrow> bool" where
  "search_from ms st [] = (match_here ms st [] \<noteq> None)"
| "search_from ms st (c # cs) = (match_here ms st (c # cs) \<noteq> None \<or> search_from ms False cs)"

definition re_search :: "dna_re \<Rightarrow> string \<Rightarrow> bool" where
  "re_search ms s = search_from ms True s"

fun sub_from :: "dna_re \<Rightarrow> string \<Rightarrow> bool \<Rightarrow> string \<Rightarrow> string" where
  "sub_from ms repl st [] = (case match_here ms st [] of None \<Rightarrow> [] | Some k \<Rightarrow> repl)"
| "sub_from ms repl st (c # cs) =
     (case match_here ms st (c # cs) of
        None \<Rightarrow> c # sub_from ms repl False cs
      | Some k \<Rightarrow>
          if k = 0 then repl @ c # sub_from ms repl False cs
          else repl @ sub_from ms repl False (drop (k - 1) cs))"

definition re_sub :: "dna_re \<Rightarrow> string \<Rightarrow> string \<Rightarrow> string" where
  "re_sub ms repl s = sub_from ms repl True s"

text \<open>
  \<^verbatim>\<open>erase_re\<close> overwrites the two sequence lists in place; the model returns the new
  lists.
\<close>

definition erase_re ::
  "string \<Rightarrow> string list \<Rightarrow> string list \<Rightarrow> py_error + (string list \<times> string list)" where
  "erase_re re pos_seqs neg_seqs =
     (let ens = replicate (length re) (CHR ''N'') in
      bind_err (make_dna_re re False False) (\<lambda>ms.
      Inr (map (re_sub ms ens) pos_seqs, map (re_sub ms ens) neg_seqs)))"

text \<open>Notions used in the proofs about the matcher.\<close>

definition acgt :: "char set" where
  "acgt = set ''ACGT''"

definition acgt_class :: "string \<Rightarrow> bool" where
  "acgt_class cl = (set cl \<subseteq> acgt)"

definition compiled_for :: "nat \<Rightarrow> dna_re \<Rightarrow> bool" where
  "compiled_for w ms = list_all (\<lambda>a. length a = w \<and> list_all acgt_class a) (alts ms)"

definition matched_at :: "dna_re \<Rightarrow> string \<Rightarrow> nat \<Rightarrow> string option" where
  "matched_at ms s i =
     (if i \<le> length s
      then map_option (\<lambda>k. take k (drop i s)) (match_here ms (i = 0) (drop i s))
      else None)"

definition no_match :: "dna_re \<Rightarrow> string \<Rightarrow> bool" where
  "no_match ms s = (\<forall>i \<le> length s. first_alt False (alts ms) (drop i s) = None)"

subsection \<open>Word census\<close>

text \<open>
  Python's \<^verbatim>\<open>range(a, b)\<close> and the slice \<^verbatim>\<open>s[i:j]\<close>: a negative index counts
  from the end of the string and both indices are clamped to the string.
\<close>

definition py_range :: "int \<Rightarrow> int \<Rightarrow> int list" where
  "py_range a b = [a..b - 1]"

definition slice_index :: "nat \<Rightarrow> int \<Rightarrow> nat" where
  "slice_index len k = (if k < 0 then nat (max 0 (k + int len)) else min (nat k) len)"

definition py_slice :: "'a list \<Rightarrow> int \<Rightarrow> int \<Rightarrow> 'a list" where
  "py_slice s i j =
     (let lo = slice_index (length s) i; hi = slice_index (length s) j
      in take (hi - lo) (drop lo s))"

text \<open>
  The census dictionary maps a word to \<^verbatim>\<open>[seq_count, last_seq]\<close>: the number of
  sequences with the word and the largest sequence number with the word.
\<close>

type_synonym census = "string \<rightharpoonup> int \<times> int"

definition update_seqs_with_words :: "census \<Rightarrow> string \<Rightarrow> int \<Rightarrow> bool \<Rightarrow> census" where
  "update_seqs_with_words seqs_with_words word0 seq_no given_only =
     (let word = (if \<not> given_only then py_min word0 (get_rc word0) else word0) in
      case seqs_with_words word of
        Some (seq_count, last_seq) \<Rightarrow>
          if last_seq < seq_no then seqs_with_words(word \<mapsto> (seq_count + 1, seq_no))
          else seqs_with_words
      | None \<Rightarrow> seqs_with_words(word \<mapsto> (1, seq_no)))"

text \<open>
  The three nested loops of \<^verbatim>\<open>count_seqs_with_words\<close>: over the start positions of
  one sequence, over the sequences (numbered from 1), and over the widths. The test
  \<^verbatim>\<open>1 in [c in word for c in "nN"]\<close> holds when the word has an \<open>n\<close> or an \<open>N\<close>.
\<close>

definition count_words_of_seq :: "string \<Rightarrow> int \<Rightarrow> int \<Rightarrow> bool \<Rightarrow> census \<Rightarrow> census" where
  "count_words_of_seq s w seq_no given_only =
     fold (\<lambda>i seqs_with_words.
             let word = py_slice s i (i + w) in
             if CHR ''n'' \<in> set word \<or> CHR ''N'' \<in> set word then seqs_with_words
             else update_seqs_with_words seqs_with_words word seq_no given_only)
          (py_range 0 (int (length s) - w + 1))"

fun count_seqs_of_width :: "string list \<Rightarrow> int \<Rightarrow> int \<Rightarrow> bool \<Rightarrow> census \<Rightarrow> census" where
  "count_seqs_of_width [] w seq_no given_only seqs_with_words = seqs_with_words"
| "count_seqs_of_width (s # seqs) w seq_no given_only seqs_with_words =
     count_seqs_of_width seqs w (seq_no + 1) given_only
       (count_words_of_seq s w (seq_no + 1) given_only seqs_with_words)"

definition count_seqs_with_words :: "string list \<Rightarrow> int \<Rightarrow> int \<Rightarrow> bool \<Rightarrow> census" where
  "count_seqs_with_words seqs minw maxw given_only =
     fold (\<lambda>w. count_seqs_of_width seqs w 0 given_only) (py_range minw (maxw + 1)) Map.empty"

text \<open>Notions used in the proofs about the census.\<close>

definition census_inv :: "int \<Rightarrow> census \<Rightarrow> bool" where
  "census_inv L t = (\<forall>word c l. t word = Some (c, l) \<longrightarrow> 1 \<le> c \<and> c \<le> l \<and> l \<le> L)"

definition census_key :: "bool \<Rightarrow> string \<Rightarrow> string" where
  "census_key given_only word = (if \<not> given_only then py_min word (get_rc word) else word)"

definition count_of :: "census \<Rightarrow> string \<Rightarrow> int" where
  "count_of t word = (case t word of None \<Rightarrow> 0 | Some (seq_count, last_seq) \<Rightarrow> seq_count)"

definition once_for :: "census \<Rightarrow> int \<Rightarrow> string \<Rightarrow> census \<Rightarrow> bool" where
  "once_for t0 seq_no word t =
     (t word = t0 word \<or> t word = Some (count_of t0 word + 1, seq_no))"

definition no_N_keys :: "census \<Rightarrow> bool" where
  "no_N_keys t = (\<forall>w. t w \<noteq> None \<longrightarrow> CHR ''N'' \<notin> set w)"

subsection \<open>Enrichment records\<close>

text \<open>
  A record of the pattern table is the list \<^verbatim>\<open>[p, P, n, N, log_pvalue]\<close>, with the
  Hamming distance as an optional sixth element.
\<close>

record pvalue_record =
  pv_p :: int
  pv_P :: int
  pv_n :: int
  pv_N :: int
  pv_log_pvalue :: real
  pv_dist :: "int option"

type_synonym re_table = "string \<rightharpoonup> pvalue_record"
type_synonym c_counts = "char \<rightharpoonup> int \<times> int"

definition mk_rec :: "int \<Rightarrow> int \<Rightarrow> int \<Rightarrow> int \<Rightarrow> real \<Rightarrow> pvalue_record" where
  "mk_rec p P n N l = \<lparr>pv_p = p, pv_P = P, pv_n = n, pv_N = N, pv_log_pvalue = l, pv_dist = None\<rparr>"

subsection \<open>Ambiguity generalizer\<close>

text \<open>
  \<^verbatim>\<open>int(round(x))\<close>: Python 2 rounds a half away from zero. The quotient
  \<^verbatim>\<open>float(p1*p2)/P\<close> is taken in the reals, and raises \<^verbatim>\<open>ZeroDivisionError\<close>
  when \<open>P\<close> is 0.
\<close>

definition py_round :: "real \<Rightarrow> int" where
  "py_round x = (if 0 \<le> x then \<lfloor>x + 1 / 2\<rfloor> else \<lceil>x - 1 / 2\<rceil>)"

definition union_estimate :: "int \<Rightarrow> int \<Rightarrow> int \<Rightarrow> int" where
  "union_estimate c1 c2 T = py_round (real_of_int (c1 + c2) - real_of_int (c1 * c2) / real_of_int T)"

definition combine_counts :: "int \<Rightarrow> int \<Rightarrow> int \<Rightarrow> py_error + int" where
  "combine_counts c1 c2 T =
     (if T = 0 then Inl ZeroDivisionError else Inr (union_estimate c1 c2 T))"

text \<open>\<^verbatim>\<open>re[:i] + k + re[i+1:]\<close> and the key of a pattern in the table.\<close>

definition subst_letter :: "string \<Rightarrow> nat \<Rightarrow> char \<Rightarrow> string" where
  "subst_letter re i k = take i re @ [k] @ drop (i + 1) re"

definition re_index :: "bool \<Rightarrow> string \<Rightarrow> string" where
  "re_index given_only new_re = (if given_only then new_re else py_min new_re (get_rc new_re))"

text \<open>
  The first loop of a column: the counts of the significant patterns that differ from
  \<open>re\<close> in column \<open>i\<close> only, by base letter.
\<close>

definition base_counts ::
  "string \<Rightarrow> re_table \<Rightarrow> string \<Rightarrow> real \<Rightarrow> bool \<Rightarrow> nat \<Rightarrow> c_counts" where
  "base_counts re re_pvalues alph_keys log_add_pthresh given_only i =
     fold (\<lambda>k c_counts.
             let new_re = subst_letter re i k;
                 index = re_index given_only new_re
             in case re_pvalues index of
                  Some r \<Rightarrow>
                    if pv_log_pvalue r < log_add_pthresh
                    then c_counts(k \<mapsto> (pv_p r, pv_n r)) else c_counts
                | None \<Rightarrow> c_counts)
          alph_keys Map.empty"

text \<open>
  The second loop, over the ambiguity codes in the given order. \<^verbatim>\<open>pair[1]\<close> is only
  read when \<^verbatim>\<open>pair[0]\<close> is a key of \<open>c_counts\<close>.
\<close>

fun combine_ambigs ::
  "(char \<times> string) list \<Rightarrow> int \<Rightarrow> int \<Rightarrow> string \<Rightarrow> c_counts \<Rightarrow> py_error + c_counts" where
  "combine_ambigs ambig_mappings P N [] c_counts = Inr c_counts"
| "combine_ambigs ambig_mappings P N (ambig # ambigs) c_counts =
     (case map_of ambig_mappings ambig of
        None \<Rightarrow> Inl KeyError
      | Some [] \<Rightarrow> Inl IndexError
      | Some [x] \<Rightarrow>
          if c_counts x = None then combine_ambigs ambig_mappings P N ambigs c_counts
          else Inl IndexError
      | Some (x # y # _) \<Rightarrow>
          (case (c_counts x, c_counts y) of
             (Some (p1, n1), Some (p2, n2)) \<Rightarrow>
               bind_err (combine_counts p1 p2 P) (\<lambda>p.
               bind_err (combine_counts n1 n2 N) (\<lambda>n.
               combine_ambigs ambig_mappings P N ambigs (c_counts(ambig \<mapsto> (p, n)))))
           | _ \<Rightarrow> combine_ambigs ambig_mappings P N ambigs c_counts))"

text \<open>
  The third loop, over the keys of \<open>c_counts\<close>. Python does not fix the order in which a
  dictionary is traversed; the list of candidate keys in traversal order is the
  parameter \<open>key_order\<close> of the model (keys absent from \<open>c_counts\<close> are skipped).
\<close>

fun store_generalized ::
  "(int \<Rightarrow> int \<Rightarrow> int \<Rightarrow> int \<Rightarrow> fet_result) \<Rightarrow> string \<Rightarrow> string \<Rightarrow> int \<Rightarrow> int \<Rightarrow> bool
     \<Rightarrow> nat \<Rightarrow> c_counts \<Rightarrow> char list \<Rightarrow> re_table \<Rightarrow> re_table" where
  "store_generalized fet re alph_keys P N given_only i c_counts [] new_re_pvalues = new_re_pvalues"
| "store_generalized fet re alph_keys P N given_only i c_counts (k # ks) new_re_pvalues =
     (case c_counts k of
        None \<Rightarrow> store_generalized fet re alph_keys P N given_only i c_counts ks new_re_pvalues
      | Some (p, n) \<Rightarrow>
          if k \<in> set alph_keys
          then store_generalized fet re alph_keys P N given_only i c_counts ks new_re_pvalues
          else
            let log_pvalue = getLogPvalue fet p P n N;
                new_re = subst_letter re i k
            in if hd new_re = CHR ''N'' \<or> last new_re = CHR ''N''
               then store_generalized fet re alph_keys P N given_only i c_counts ks new_re_pvalues
               else store_generalized fet re alph_keys P N given_only i c_counts ks
                      (new_re_pvalues(re_index given_only new_re \<mapsto>
                         \<lparr>pv_p = p, pv_P = P, pv_n = n, pv_N = N,
                          pv_log_pvalue = log_pvalue, pv_dist = None\<rparr>)))"

definition generalize_column ::
  "(int \<Rightarrow> int \<Rightarrow> int \<Rightarrow> int \<Rightarrow> fet_result) \<Rightarrow> char list \<Rightarrow> string \<Rightarrow> re_table \<Rightarrow> string
     \<Rightarrow> string \<Rightarrow> (char \<times> string) list \<Rightarrow> real \<Rightarrow> bool \<Rightarrow> int \<Rightarrow> int
     \<Rightarrow> nat \<Rightarrow> re_table \<Rightarrow> py_error + re_table" where
  "generalize_column fet key_order re re_pvalues alph_keys ambigs ambig_mappings log_add_pthresh
       given_only P N i new_re_pvalues =
     (if re ! i \<notin> set alph_keys then Inr new_re_pvalues
      else
        bind_err (combine_ambigs ambig_mappings P N ambigs
                    (base_counts re re_pvalues alph_keys log_add_pthresh given_only i))
          (\<lambda>c_counts. Inr (store_generalized fet re alph_keys P N given_only i c_counts
                               key_order new_re_pvalues)))"

fun generalize_columns ::
  "(nat \<Rightarrow> re_table \<Rightarrow> py_error + re_table) \<Rightarrow> nat list \<Rightarrow> re_table \<Rightarrow> py_error + re_table" where
  "generalize_columns col [] new_re_pvalues = Inr new_re_pvalues"
| "generalize_columns col (i # is) new_re_pvalues =
     bind_err (col i new_re_pvalues) (generalize_columns col is)"

definition re_generalize ::
  "(int \<Rightarrow> int \<Rightarrow> int \<Rightarrow> int \<Rightarrow> fet_result) \<Rightarrow> char list \<Rightarrow> string \<Rightarrow> re_table \<Rightarrow> string
     \<Rightarrow> string \<Rightarrow> (char \<times> string) list \<Rightarrow> re_table \<Rightarrow> real \<Rightarrow> bool
     \<Rightarrow> py_error + re_table" where
  "re_generalize fet key_order re re_pvalues alph_keys ambigs ambig_mappings new_re_pvalues
       log_add_pthresh given_only =
     (case re_pvalues re of
        None \<Rightarrow> Inl KeyError
      | Some v \<Rightarrow>
          generalize_columns
            (generalize_column fet key_order re re_pvalues alph_keys ambigs ambig_mappings
               log_add_pthresh given_only (pv_P v) (pv_N v))
            [0..<length re] new_re_pvalues)"

text \<open>Notions used in the proofs about the generalizer.\<close>

fun topo_ok :: "(char \<times> string) list \<Rightarrow> string \<Rightarrow> bool" where
  "topo_ok am [] = True"
| "topo_ok am (a # rest) =
     ((case map_of am a of
         Some [x, y] \<Rightarrow> x \<notin> set (a # rest) \<and> y \<notin> set (a # rest)
       | _ \<Rightarrow> False)
      \<and> a \<notin> set rest \<and> topo_ok am rest)"

definition combined_entry :: "int \<Rightarrow> int \<Rightarrow> c_counts \<Rightarrow> char \<Rightarrow> char \<Rightarrow> (int \<times> int) option" where
  "combined_entry P N c_counts x y =
     (case (c_counts x, c_counts y) of
        (Some (p1, n1), Some (p2, n2)) \<Rightarrow> Some (union_estimate p1 p2 P, union_estimate n1 n2 N)
      | _ \<Rightarrow> None)"

definition diff_positions :: "string \<Rightarrow> string \<Rightarrow> nat" where
  "diff_positions a b = length (filter (\<lambda>(x, y). x \<noteq> y) (zip a b))"

subsection \<open>Program set-up\<close>

text \<open>
  The options of \<^verbatim>\<open>main\<close> that decide its control flow, with their defaults; the
  beam sizes, the seed and the strand and consensus flags are only handed on to
  \<^verbatim>\<open>find_print\<close>. Parsing the command line is not modelled.
\<close>

record options =
  opt_minw :: int
  opt_maxw :: int
  opt_mink :: int
  opt_maxk :: int
  opt_add_pthresh :: real
  opt_ethresh :: real
  opt_max_motifs :: "int option"
  opt_max_time :: "int option"
  opt_pos_seq_file_name :: "string option"
  opt_neg_seq_file_name :: "string option"
  opt_clobber :: bool

definition default_options :: options where
  "default_options =
     \<lparr>opt_minw = -1, opt_maxw = -1, opt_mink = 3, opt_maxk = 8, opt_add_pthresh = 0.01, opt_ethresh = 0.05,
      opt_max_motifs = None, opt_max_time = None, opt_pos_seq_file_name = None,
      opt_neg_seq_file_name = None, opt_clobber = True\<rparr>"







subsection \<open>Discovery loop\<close>

text \<open>
  The state of the find-and-erase loop: the two sequence lists, which erasure
  overwrites, the number of motifs found, and the table of the first iteration.
\<close>

record loop_state =
  ls_pos_seqs :: "string list"
  ls_neg_seqs :: "string list"
  ls_nmotifs :: int
  ls_unerased_word_pvalues :: re_table

text \<open>
  \<^verbatim>\<open>find_print\<close> returns the best word, its reverse complement, its log p-value, its log
  E-value and the table of the iteration. It is a parameter of the loop, as are the two
  readings of the clock by \<^verbatim>\<open>enable_timeout\<close>: whether the time limit has passed
  when the search for motif number \<open>m\<close> starts, and when the erasure after motif number
  \<open>m\<close> starts. An alarm that goes off during the search is the result
  \<^verbatim>\<open>TimeoutError\<close> of \<^verbatim>\<open>find_print\<close>.
\<close>

type_synonym found = "string \<times> string \<times> real \<times> real \<times> re_table"

record environment =
  env_find_print :: "int \<Rightarrow> string list \<Rightarrow> string list \<Rightarrow> real \<Rightarrow> py_error + found"
  env_search_deadline_passed :: "int \<Rightarrow> bool"
  env_erase_deadline_passed :: "int \<Rightarrow> bool"


text \<open>
  \<^verbatim>\<open>math.log\<close> raises \<^verbatim>\<open>ValueError\<close> unless its argument is positive.
\<close>

definition py_log :: "real \<Rightarrow> py_error + real" where
  "py_log x = (if 0 < x then Inr (ln x) else Inl ValueError)"

record run_result =
  stop_cause :: string
  final_state :: loop_state

text \<open>
  The loop \<^verbatim>\<open>while (True)\<close> of \<^verbatim>\<open>main\<close>, with fuel: one unit per iteration, and
  \<open>None\<close> when the fuel runs out before a \<^verbatim>\<open>break\<close>. Only \<^verbatim>\<open>TimeoutError\<close> is
  caught; any other exception leaves the loop as it is.
\<close>

fun main_loop ::
  "nat \<Rightarrow> environment \<Rightarrow> options \<Rightarrow> loop_state \<Rightarrow> (py_error + run_result) option" where
  "main_loop 0 env opts st = None"
| "main_loop (Suc fuel) env opts st =
     (case (if opt_max_time opts \<noteq> None \<and> env_search_deadline_passed env (ls_nmotifs st + 1)
            then Inl TimeoutError
            else bind_err (py_log (opt_add_pthresh opts))
                   (env_find_print env (ls_nmotifs st + 1) (ls_pos_seqs st) (ls_neg_seqs st))) of
        Inl TimeoutError \<Rightarrow> Some (Inr \<lparr>stop_cause = ''time'', final_state = st\<rparr>)
      | Inl e \<Rightarrow> Some (Inl e)
      | Inr (word, rc_word, pvalue, Evalue, word_pvalues) \<Rightarrow>
          let st1 = (if ls_nmotifs st = 0 then st\<lparr>ls_unerased_word_pvalues := word_pvalues\<rparr> else st)
          in case py_log (opt_ethresh opts) of
               Inl e \<Rightarrow> Some (Inl e)
             | Inr log_ethresh \<Rightarrow>
                 if Evalue > log_ethresh
                 then Some (Inr \<lparr>stop_cause = ''evalue'', final_state = st1\<rparr>)
                 else
                   let st2 = st1\<lparr>ls_nmotifs := ls_nmotifs st1 + 1\<rparr>
                   in if Some (ls_nmotifs st2) = opt_max_motifs opts
                      then Some (Inr \<lparr>stop_cause = ''count'', final_state = st2\<rparr>)
                      else if opt_max_time opts \<noteq> None \<and> env_erase_deadline_passed env (ls_nmotifs st2)
                      then Some (Inr \<lparr>stop_cause = ''time'', final_state = st2\<rparr>)
                      else if Evalue \<le> log_ethresh
                      then (case erase_re word (ls_pos_seqs st2) (ls_neg_seqs st2) of
                              Inl e \<Rightarrow> Some (Inl e)
                            | Inr (pos', neg') \<Rightarrow>
                                main_loop fuel env opts (st2\<lparr>ls_pos_seqs := pos', ls_neg_seqs := neg'\<rparr>))
                      else main_loop fuel env opts st2)"


definition counted :: "(char \<rightharpoonup> int) \<Rightarrow> char \<Rightarrow> bool" where
  "counted m c = (\<exists>f. m c = Some f \<and> 1 \<le> f)"

subsection \<open>Exact enrichment of a pattern\<close>

text \<open>
  \<^verbatim>\<open>count_seqs_matching_iupac_re\<close> counts the sequences of each set in which the
  compiled pattern matches somewhere; \<^verbatim>\<open>compute_exact_re_enrichment\<close> scores the two
  counts against the sizes of the sets.
\<close>

definition count_seqs_matching_iupac_re ::
  "string \<Rightarrow> string list \<Rightarrow> string list \<Rightarrow> bool \<Rightarrow> py_error + (int \<times> int)" where
  "count_seqs_matching_iupac_re re pos neg given_only =
     bind_err (make_dna_re re given_only False) (\<lambda>ms.
     Inr (int (length (filter (re_search ms) pos)), int (length (filter (re_search ms) neg))))"

definition compute_exact_re_enrichment ::
  "(int \<Rightarrow> int \<Rightarrow> int \<Rightarrow> int \<Rightarrow> fet_result) \<Rightarrow> string \<Rightarrow> string list \<Rightarrow> string list \<Rightarrow> bool
     \<Rightarrow> py_error + pvalue_record" where
  "compute_exact_re_enrichment fet re pos neg given_only =
     bind_err (count_seqs_matching_iupac_re re pos neg given_only) (\<lambda>(p, n).
     let P = int (length pos);
         N = int (length neg);
         log_pvalue = getLogPvalue fet p P n N
     in Inr \<lparr>pv_p = p, pv_P = P, pv_n = n, pv_N = N, pv_log_pvalue = log_pvalue,
             pv_dist = None\<rparr>)"

subsection \<open>Greedy refiner\<close>

text \<open>
  The record of a substituted pattern: computed exactly when \<^verbatim>\<open>hamming_dist\<close> is
  \<open>-1\<close>, and otherwise taken from \<^verbatim>\<open>get_best_hamming_alignment\<close> of the module
  \<^verbatim>\<open>fasta-hamming-enrich\<close>, which is a parameter.
\<close>

type_synonym hamming_result = "int \<times> real \<times> int \<times> int \<times> int \<times> int \<times> string list"

definition new_pvalue_of ::
  "(int \<Rightarrow> int \<Rightarrow> int \<Rightarrow> int \<Rightarrow> fet_result)
     \<Rightarrow> (string \<Rightarrow> string list \<Rightarrow> string list \<Rightarrow> bool \<Rightarrow> py_error + hamming_result)
     \<Rightarrow> string list \<Rightarrow> string list \<Rightarrow> int \<Rightarrow> bool \<Rightarrow> string \<Rightarrow> py_error + pvalue_record" where
  "new_pvalue_of fet get_best_hamming_alignment pos neg hamming_dist given_only new_re =
     (if hamming_dist = -1 then compute_exact_re_enrichment fet new_re pos neg given_only
      else bind_err (get_best_hamming_alignment new_re pos neg given_only)
             (\<lambda>(dist, log_pvalue, p, P, n, N, aln).
                Inr \<lparr>pv_p = p, pv_P = P, pv_n = n, pv_N = N, pv_log_pvalue = log_pvalue,
                     pv_dist = Some dist\<rparr>))"

text \<open>
  A loop whose body may raise: the first error ends it.
\<close>

fun fold_err :: "('a \<Rightarrow> 's \<Rightarrow> py_error + 's) \<Rightarrow> 'a list \<Rightarrow> 's \<Rightarrow> py_error + 's" where
  "fold_err f [] s = Inr s"
| "fold_err f (x # xs) s = bind_err (f x s) (fold_err f xs)"

text \<open>
  The body of the innermost loop of \<^verbatim>\<open>re_refine\<close> for the candidate \<open>re\<close>, the
  position \<open>i\<close> and a letter different from the one at \<open>i\<close>. The state is the pattern
  table and the table of improved patterns. The record of the parent is only read once
  the new record has been computed, and raises \<^verbatim>\<open>KeyError\<close> when the candidate is not
  in the pattern table.
\<close>

definition refine_subst ::
  "(string \<Rightarrow> py_error + pvalue_record) \<Rightarrow> string \<Rightarrow> nat \<Rightarrow> char
     \<Rightarrow> re_table \<times> re_table \<Rightarrow> py_error + (re_table \<times> re_table)" where
  "refine_subst compute re i new_letter st =
     (case st of (re_pvalues, improved_re_pvalues) \<Rightarrow>
        let new_re = subst_letter re i new_letter;
            index = py_min new_re (get_rc new_re)
        in if re_pvalues index \<noteq> None then Inr (re_pvalues, improved_re_pvalues)
           else bind_err (compute new_re) (\<lambda>new_pvalue.
                  case re_pvalues re of
                    None \<Rightarrow> Inl KeyError
                  | Some parent \<Rightarrow>
                      Inr (re_pvalues(index \<mapsto> new_pvalue),
                           if pv_log_pvalue new_pvalue < pv_log_pvalue parent
                           then improved_re_pvalues(index \<mapsto> new_pvalue)
                           else improved_re_pvalues)))"

text \<open>
  The loops over the allowed letters, over the positions of a candidate, and over the
  candidates. The candidates are the keys of a dictionary; the list gives them in the
  order in which the dictionary is traversed. \<open>done_re_list\<close> is the dictionary of the
  patterns refined so far.
\<close>

definition refine_position ::
  "(string \<Rightarrow> py_error + pvalue_record) \<Rightarrow> string \<Rightarrow> string \<Rightarrow> nat
     \<Rightarrow> re_table \<times> re_table \<Rightarrow> py_error + (re_table \<times> re_table)" where
  "refine_position compute allowed_letters re i =
     fold_err (\<lambda>new_letter st.
                 if new_letter = re ! i then Inr st
                 else refine_subst compute re i new_letter st) allowed_letters"

definition refine_candidate ::
  "(string \<Rightarrow> py_error + pvalue_record) \<Rightarrow> string \<Rightarrow> string
     \<Rightarrow> re_table \<times> (string \<rightharpoonup> int) \<times> re_table
     \<Rightarrow> py_error + (re_table \<times> (string \<rightharpoonup> int) \<times> re_table)" where
  "refine_candidate compute allowed_letters re st =
     (case st of (re_pvalues, done_re_list, improved_re_pvalues) \<Rightarrow>
        if done_re_list re \<noteq> None then Inr (re_pvalues, done_re_list, improved_re_pvalues)
        else bind_err (fold_err (refine_position compute allowed_letters re) [0..<length re]
                         (re_pvalues, improved_re_pvalues))
               (\<lambda>(re_pvalues', improved'). Inr (re_pvalues', done_re_list(re \<mapsto> 1), improved')))"

definition re_refine ::
  "(int \<Rightarrow> int \<Rightarrow> int \<Rightarrow> int \<Rightarrow> fet_result)
     \<Rightarrow> (string \<Rightarrow> string list \<Rightarrow> string list \<Rightarrow> bool \<Rightarrow> py_error + hamming_result)
     \<Rightarrow> re_table \<Rightarrow> string list \<Rightarrow> (string \<rightharpoonup> int) \<Rightarrow> string \<Rightarrow> string list \<Rightarrow> string list
     \<Rightarrow> int \<Rightarrow> bool \<Rightarrow> py_error + (re_table \<times> (string \<rightharpoonup> int) \<times> re_table)" where
  "re_refine fet get_best_hamming_alignment re_pvalues candidates done_re_list allowed_letters
       pos neg hamming_dist given_only =
     fold_err (refine_candidate
                 (new_pvalue_of fet get_best_hamming_alignment pos neg hamming_dist given_only)
                 allowed_letters)
       candidates (re_pvalues, done_re_list, Map.empty)"

text \<open>
  Notions used in the proofs about the refiner: the entries of a result at given keys,
  the substitutions tried in a position, for a candidate and in a round, and the relation
  between the tables before and after a set of substitutions.
\<close>

definition refine_view ::
  "py_error + (re_table \<times> (string \<rightharpoonup> int) \<times> re_table) \<Rightarrow> string list
     \<Rightarrow> ((string \<times> pvalue_record option \<times> int option \<times> pvalue_record option) list) option" where
  "refine_view r ks =
     (case r of
        Inl e \<Rightarrow> None
      | Inr (tbl, dn, imp) \<Rightarrow> Some (map (\<lambda>k. (k, tbl k, dn k, imp k)) ks))"

type_synonym subst = "string \<times> nat \<times> char"

definition pos_substs :: "string \<Rightarrow> string \<Rightarrow> nat \<Rightarrow> subst set" where
  "pos_substs allowed re i = {(re', i', l). re' = re \<and> i' = i \<and> l \<in> set allowed \<and> l \<noteq> re ! i}"

definition cand_substs :: "string \<Rightarrow> string \<Rightarrow> subst set" where
  "cand_substs allowed re = {(re', i, l). re' = re \<and> i < length re \<and> l \<in> set allowed \<and> l \<noteq> re ! i}"

definition round_substs :: "string \<Rightarrow> (string \<rightharpoonup> int) \<Rightarrow> string list \<Rightarrow> subst set" where
  "round_substs allowed dn cands =
     {(re, i, l). re \<in> set cands \<and> dn re = None \<and> i < length re \<and> l \<in> set allowed \<and> l \<noteq> re ! i}"

definition refines_to ::
  "(string \<Rightarrow> py_error + pvalue_record) \<Rightarrow> subst set
     \<Rightarrow> re_table \<Rightarrow> re_table \<Rightarrow> re_table \<Rightarrow> re_table \<Rightarrow> bool" where
  "refines_to compute S tbl imp tbl' imp' =
     ((\<forall>k r. tbl k = Some r \<longrightarrow> tbl' k = Some r \<and> imp' k = imp k)
      \<and> (\<forall>k. tbl' k = None \<longrightarrow> imp' k = imp k)
      \<and> (\<forall>re i l. (re, i, l) \<in> S \<longrightarrow> tbl' (canonical (subst_letter re i l)) \<noteq> None)
      \<and> (\<forall>k r. tbl k = None \<and> tbl' k = Some r \<longrightarrow>
            (\<exists>re i l parent. (re, i, l) \<in> S \<and> k = canonical (subst_letter re i l)
                \<and> compute (subst_letter re i l) = Inr r \<and> tbl' re = Some parent
                \<and> imp' k = (if pv_log_pvalue r < pv_log_pvalue parent then Some r else imp k))))"

definition has_cands :: "string list \<Rightarrow> re_table \<Rightarrow> bool" where
  "has_cands cands tbl = (\<forall>c \<in> set cands. tbl c \<noteq> None)"

section \<open>Properties\<close>

subsection \<open>Reverse complement\<close>

lemma translate_rc_iupac: "c \<in> iupac \<Longrightarrow> translate_rc (translate_rc c) = c"
  by (auto simp: iupac_def translate_rc_def rc_table_def)

lemma get_rc_involution: "set w \<subseteq> iupac \<Longrightarrow> get_rc (get_rc w) = w"
  by (simp add: get_rc_def rev_map translate_rc_iupac map_idI subset_iff)

lemma translate_rc_N: "translate_rc c = CHR ''N'' \<longleftrightarrow> c = CHR ''N''"
  by (auto simp: translate_rc_def rc_table_def split: if_splits)

lemma py_min_commute: "py_min a b = py_min b a"
  by (auto simp: py_min_def)

text \<open>
  Claim C3. For every pattern \<open>w\<close> over the IUPAC DNA alphabet, the canonical form (the
  lexicographically smaller of \<open>w\<close> and its reverse complement) is the same whether it
  is computed from \<open>w\<close> or from the reverse complement of \<open>w\<close>.
\<close>

theorem canonical_get_rc:
  assumes "set w \<subseteq> iupac"
  shows "canonical (get_rc w) = canonical w"
  using assms by (simp add: canonical_def get_rc_involution py_min_commute)

theorem canonical_get_rc_witness:
  "set ''TTGR'' \<subseteq> iupac \<and> canonical (get_rc ''TTGR'') = canonical ''TTGR''"
proof -
  have h: "set ''TTGR'' \<subseteq> iupac"
    by (simp add: iupac_def)
  from canonical_get_rc [OF h] h show ?thesis
    by simp
qed

subsection \<open>Enrichment scorer\<close>

text \<open>
  Claim C1. For all valid counts \<open>p \<le> P\<close> and \<open>n \<le> N\<close>, \<^verbatim>\<open>getLogPvalue(p, P, n, N)\<close>
  returns 0 (the log of p-value 1) whenever \<open>p * N \<le> n * P\<close>, and then makes no call
  to the hypergeometric tail primitive; only when \<open>p * N > n * P\<close> is
  \<^verbatim>\<open>log_getFETprob\<close> called (once, with \<open>N - n\<close>, \<open>n\<close>, \<open>P - p\<close>, \<open>p\<close>), and its
  fifth component is the result.
\<close>

theorem getLogPvalue_short_circuit:
  assumes "p \<le> P" and "n \<le> N"
  shows "(p * N \<le> n * P \<longrightarrow>
            getLogPvalue_traced fet p P n N calls = (0, calls) \<and> getLogPvalue fet p P n N = 0)
       \<and> (p * N > n * P \<longrightarrow>
            getLogPvalue_traced fet p P n N calls =
              (fet_index4 (fet (N - n) n (P - p) p), calls @ [(N - n, n, P - p, p)]))"
  by (simp add: getLogPvalue_traced_def getLogPvalue_def)

theorem getLogPvalue_short_circuit_witness:
  "(2::int) \<le> 4 \<and> (3::int) \<le> 6 \<and> (2::int) * 6 \<le> 3 * 4
   \<and> getLogPvalue_traced (\<lambda>a b c d. (1, 2, 3, 4, -7)) 2 4 3 6 [] = (0, [])
   \<and> getLogPvalue (\<lambda>a b c d. (1, 2, 3, 4, -7)) 2 4 3 6 = 0"
  using getLogPvalue_short_circuit [of 2 4 3 6 "\<lambda>a b c d. (1, 2, 3, 4, -7)" "[]"]
  by simp

subsection \<open>Matcher and erasure\<close>

lemma ambig_to_dna_acgt: "map_of ambig_to_dna c = Some d \<Longrightarrow> acgt_class d"
  by (auto simp: ambig_to_dna_def acgt_class_def acgt_def split: if_splits)

lemma ambig_to_dna_iupac: "c \<in> iupac \<Longrightarrow> \<exists>d. map_of ambig_to_dna c = Some d"
  by (auto simp: ambig_to_dna_def iupac_def)

lemma class_expansion_acgt:
  "class_expansion w = Inr RE \<Longrightarrow> length RE = length w \<and> list_all acgt_class RE"
proof (induction w arbitrary: RE)
  case Nil
  then show ?case by simp
next
  case (Cons c cs)
  then obtain d where d: "map_of ambig_to_dna c = Some d"
    by (auto split: option.splits)
  with Cons.prems obtain r where r: "class_expansion cs = Inr r" and RE: "RE = d # r"
    by (cases "class_expansion cs") auto
  from Cons.IH [OF r] d RE show ?case
    by (simp add: ambig_to_dna_acgt)
qed

lemma class_expansion_total:
  "set w \<subseteq> iupac \<Longrightarrow> \<exists>RE. class_expansion w = Inr RE"
proof (induction w)
  case Nil
  then show ?case by simp
next
  case (Cons c cs)
  then obtain r where r: "class_expansion cs = Inr r" by auto
  from Cons.prems obtain d where "map_of ambig_to_dna c = Some d"
    using ambig_to_dna_iupac [of c] by auto
  with r show ?case by simp
qed

lemma translate_rc_closed: "c \<in> iupac \<Longrightarrow> translate_rc c \<in> iupac"
  by (auto simp: iupac_def translate_rc_def rc_table_def)

lemma get_rc_closed: "set w \<subseteq> iupac \<Longrightarrow> set (get_rc w) \<subseteq> iupac"
  by (auto simp: get_rc_def translate_rc_closed)

lemma length_get_rc: "length (get_rc w) = length w"
  by (simp add: get_rc_def)

lemma make_dna_re_compiled:
  "make_dna_re re g c = Inr ms \<Longrightarrow> compiled_for (length re) ms \<and> complete ms = c"
  by (cases "class_expansion re"; cases "class_expansion (get_rc re)"; cases g)
     (auto simp: make_dna_re_def compiled_for_def dest!: class_expansion_acgt
           simp: length_get_rc)

lemma make_dna_re_total:
  assumes "set re \<subseteq> iupac"
  shows "\<exists>ms. make_dna_re re g c = Inr ms"
proof -
  from assms obtain RE where a: "class_expansion re = Inr RE"
    using class_expansion_total by blast
  from assms obtain RC where b: "class_expansion (get_rc re) = Inr RC"
    using class_expansion_total get_rc_closed by blast
  from a b show ?thesis by (simp add: make_dna_re_def)
qed

lemma match_classes_acgt:
  "list_all acgt_class a \<Longrightarrow> match_classes a s \<Longrightarrow>
     length a \<le> length s \<and> set (take (length a) s) \<subseteq> acgt"
proof (induction a s rule: match_classes.induct)
  case (3 cl cls c s)
  then show ?case by (auto simp: acgt_class_def)
qed simp_all

lemma first_alt_acgt:
  "list_all (\<lambda>a. length a = w \<and> list_all acgt_class a) as \<Longrightarrow> first_alt ce as s = Some k \<Longrightarrow>
     k = w \<and> k \<le> length s \<and> set (take k s) \<subseteq> acgt"
proof (induction as)
  case Nil
  then show ?case by simp
next
  case (Cons a as)
  show ?case
  proof (cases "match_classes a s \<and> (ce \<longrightarrow> at_end (drop (length a) s))")
    case True
    with Cons.prems have k: "k = length a" by simp
    from Cons.prems True match_classes_acgt [of a s] k show ?thesis by auto
  next
    case False
    with Cons show ?thesis by auto
  qed
qed

lemma match_here_acgt:
  "compiled_for w ms \<Longrightarrow> match_here ms st s = Some k \<Longrightarrow>
     k = w \<and> k \<le> length s \<and> set (take k s) \<subseteq> acgt"
  unfolding compiled_for_def match_here_def
  by (cases "complete ms \<and> \<not> st") (auto dest: first_alt_acgt)

lemma sub_from_pointwise:
  "compiled_for w ms \<Longrightarrow>
     list_all2 (\<lambda>x y. y = x \<or> y = CHR ''N'') s (sub_from ms (replicate w (CHR ''N'')) st s)"
proof (induction ms "replicate w (CHR ''N'')" st s rule: sub_from.induct)
  case (1 ms st)
  then show ?case
    by (auto split: option.splits dest: match_here_acgt)
next
  case (2 ms st c cs)
  show ?case
  proof (cases "match_here ms st (c # cs)")
    case None
    with 2 show ?thesis by simp
  next
    case (Some k)
    from match_here_acgt [OF "2.prems" Some] have k: "k = w" "k \<le> length (c # cs)" by auto
    show ?thesis
    proof (cases "k = 0")
      case True
      with 2 Some k show ?thesis by simp
    next
      case False
      with 2 Some have IH: "list_all2 (\<lambda>x y. y = x \<or> y = CHR ''N'') (drop (k - 1) cs)
          (sub_from ms (replicate w (CHR ''N'')) False (drop (k - 1) cs))"
        by simp
      have split: "c # cs = take k (c # cs) @ drop (k - 1) cs"
        using False by (cases k) auto
      have "list_all2 (\<lambda>x y. y = x \<or> y = CHR ''N'') (take k (c # cs)) (replicate w (CHR ''N''))"
        using k by (auto simp: list_all2_conv_all_nth)
      with IH have "list_all2 (\<lambda>x y. y = x \<or> y = CHR ''N'') (take k (c # cs) @ drop (k - 1) cs)
          (replicate w (CHR ''N'') @ sub_from ms (replicate w (CHR ''N'')) False (drop (k - 1) cs))"
        by (rule list_all2_appendI [rotated])
      with split Some False show ?thesis by simp
    qed
  qed
qed

lemma N_notin_acgt: "CHR ''N'' \<notin> acgt"
  by (simp add: acgt_def)

lemma match_classes_pointwise:
  "list_all acgt_class a \<Longrightarrow> list_all2 (\<lambda>x y. y = x \<or> y = CHR ''N'') s t \<Longrightarrow>
     match_classes a t \<Longrightarrow> match_classes a s"
proof (induction a t arbitrary: s rule: match_classes.induct)
  case (3 cl cls c t)
  then obtain x xs where s: "s = x # xs" by (cases s) auto
  with 3 show ?case
    using N_notin_acgt by (auto simp: acgt_class_def)
qed auto

lemma first_alt_pointwise:
  "list_all (\<lambda>a. length a = w \<and> list_all acgt_class a) as \<Longrightarrow>
   list_all2 (\<lambda>x y. y = x \<or> y = CHR ''N'') s t \<Longrightarrow>
   first_alt False as s = None \<Longrightarrow> first_alt False as t = None"
  by (induction as) (auto dest: match_classes_pointwise split: if_splits)

lemma first_alt_N:
  "list_all (\<lambda>a. length a = w \<and> list_all acgt_class a) as \<Longrightarrow> 0 < w \<Longrightarrow>
   first_alt False as (CHR ''N'' # t) = None"
proof (induction as)
  case Nil
  then show ?case by simp
next
  case (Cons a as)
  then obtain cl cls where a: "a = cl # cls" by (cases a) auto
  with Cons.prems have "CHR ''N'' \<notin> set cl"
    using N_notin_acgt by (auto simp: acgt_class_def)
  with Cons a show ?case by simp
qed

lemma first_alt_Nil:
  "list_all (\<lambda>a. length a = w \<and> list_all acgt_class a) as \<Longrightarrow> 0 < w \<Longrightarrow>
   first_alt False as [] = None"
proof (induction as)
  case Nil
  then show ?case by simp
next
  case (Cons a as)
  then obtain cl cls where a: "a = cl # cls" by (cases a) auto
  with Cons show ?case by simp
qed

lemma no_match_Cons:
  "no_match ms (c # cs) = (first_alt False (alts ms) (c # cs) = None \<and> no_match ms cs)"
proof
  assume h: "no_match ms (c # cs)"
  have "first_alt False (alts ms) (drop i cs) = None" if "i \<le> length cs" for i
    using h that by (auto simp: no_match_def dest: spec [of _ "Suc i"])
  moreover have "first_alt False (alts ms) (c # cs) = None"
    using h by (auto simp: no_match_def dest: spec [of _ 0])
  ultimately show "first_alt False (alts ms) (c # cs) = None \<and> no_match ms cs"
    by (simp add: no_match_def)
next
  assume h: "first_alt False (alts ms) (c # cs) = None \<and> no_match ms cs"
  show "no_match ms (c # cs)"
    unfolding no_match_def
  proof (intro allI impI)
    fix i assume "i \<le> length (c # cs)"
    with h show "first_alt False (alts ms) (drop i (c # cs)) = None"
      by (cases i) (auto simp: no_match_def)
  qed
qed

lemma no_match_append_N:
  assumes "list_all (\<lambda>a. length a = w \<and> list_all acgt_class a) (alts ms)" and "0 < w"
    and "no_match ms t"
  shows "no_match ms (replicate k (CHR ''N'') @ t)"
proof (induction k)
  case 0
  with assms show ?case by simp
next
  case (Suc k)
  with assms show ?case
    by (simp add: no_match_Cons first_alt_N)
qed

lemma sub_from_no_match:
  "compiled_for w ms \<Longrightarrow> \<not> complete ms \<Longrightarrow> 0 < w \<Longrightarrow>
     no_match ms (sub_from ms (replicate w (CHR ''N'')) st s)"
proof (induction ms "replicate w (CHR ''N'')" st s rule: sub_from.induct)
  case (1 ms st)
  then have "first_alt False (alts ms) [] = None"
    by (simp add: compiled_for_def first_alt_Nil)
  with 1 show ?case
    by (simp add: match_here_def no_match_def)
next
  case (2 ms st c cs)
  have comp: "list_all (\<lambda>a. length a = w \<and> list_all acgt_class a) (alts ms)"
    using "2.prems" by (simp add: compiled_for_def)
  show ?case
  proof (cases "match_here ms st (c # cs)")
    case None
    with 2 have IH: "no_match ms (sub_from ms (replicate w (CHR ''N'')) False cs)"
      by simp
    have pw: "list_all2 (\<lambda>x y. y = x \<or> y = CHR ''N'') (c # cs)
        (c # sub_from ms (replicate w (CHR ''N'')) False cs)"
      using sub_from_pointwise [OF "2.prems"(1)] by simp
    from None "2.prems" have "first_alt False (alts ms) (c # cs) = None"
      by (simp add: match_here_def)
    from first_alt_pointwise [OF comp pw this] IH None show ?thesis
      by (simp add: no_match_Cons)
  next
    case (Some k)
    from match_here_acgt [OF "2.prems"(1) Some] have k: "k = w" by simp
    with "2.prems" have k0: "k \<noteq> 0" by simp
    with 2 Some have IH: "no_match ms (sub_from ms (replicate w (CHR ''N'')) False (drop (k - 1) cs))"
      by simp
    from no_match_append_N [OF comp "2.prems"(3) IH] Some k0 show ?thesis
      by simp
  qed
qed

lemma sub_from_fixed:
  "\<not> complete ms \<Longrightarrow> no_match ms s \<Longrightarrow> sub_from ms repl st s = s"
proof (induction s arbitrary: st)
  case Nil
  then show ?case by (simp add: no_match_def match_here_def)
next
  case (Cons c cs)
  then show ?case by (simp add: no_match_Cons match_here_def)
qed

lemma sub_from_width0:
  "compiled_for 0 ms \<Longrightarrow> sub_from ms [] st s = s"
proof (induction s arbitrary: st)
  case Nil
  then show ?case by (simp split: option.splits)
next
  case (Cons c cs)
  then show ?case
    by (auto split: option.splits dest: match_here_acgt)
qed

lemma re_sub_idem:
  assumes "make_dna_re re False False = Inr ms"
  shows "re_sub ms (replicate (length re) (CHR ''N''))
           (re_sub ms (replicate (length re) (CHR ''N'')) s)
         = re_sub ms (replicate (length re) (CHR ''N'')) s"
proof -
  from make_dna_re_compiled [OF assms]
  have c: "compiled_for (length re) ms" and nc: "\<not> complete ms" by auto
  show ?thesis
  proof (cases "length re = 0")
    case True
    with c show ?thesis by (simp add: re_sub_def sub_from_width0)
  next
    case False
    then have "0 < length re" by simp
    from sub_from_no_match [OF c nc this] show ?thesis
      by (simp add: re_sub_def sub_from_fixed [OF nc])
  qed
qed

text \<open>
  Claim C7. Erasure is idempotent: when \<^verbatim>\<open>erase_re\<close> has replaced the matches of a
  pattern in both sequence sets, applying it again with the same pattern to the erased
  sets leaves every sequence string unchanged.
\<close>

theorem erase_re_idempotent:
  assumes "erase_re re pos_seqs neg_seqs = Inr (pos', neg')"
  shows "erase_re re pos' neg' = Inr (pos', neg')"
proof -
  from assms obtain ms where ms: "make_dna_re re False False = Inr ms"
    by (cases "make_dna_re re False False") (auto simp: erase_re_def Let_def)
  with assms have "pos' = map (re_sub ms (replicate (length re) (CHR ''N''))) pos_seqs"
    and "neg' = map (re_sub ms (replicate (length re) (CHR ''N''))) neg_seqs"
    by (auto simp: erase_re_def Let_def)
  with ms show ?thesis
    by (simp add: erase_re_def Let_def re_sub_idem [OF ms])
qed

theorem erase_re_idempotent_witness:
  "erase_re ''ACR'' [''TTACGACACA'', ''CGTNYGT''] [''ACACGT'']
      = Inr ([''TTNNNNNNCA'', ''NNNNYGT''], [''NNNNNN''])
   \<and> erase_re ''ACR'' [''TTNNNNNNCA'', ''NNNNYGT''] [''NNNNNN'']
      = Inr ([''TTNNNNNNCA'', ''NNNNYGT''], [''NNNNNN''])"
proof -
  have h: "erase_re ''ACR'' [''TTACGACACA'', ''CGTNYGT''] [''ACACGT'']
      = Inr ([''TTNNNNNNCA'', ''NNNNYGT''], [''NNNNNN''])"
    by (simp add: erase_re_def make_dna_re_def get_rc_def translate_rc_def rc_table_def
        ambig_to_dna_def re_sub_def match_here_def)
  from erase_re_idempotent [OF h] h show ?thesis by simp
qed

subsection \<open>Word census\<close>

lemma update_unfold:
  "update_seqs_with_words t word seq_no g =
     (case t (census_key g word) of
        Some (c, l) \<Rightarrow>
          if l < seq_no then t(census_key g word \<mapsto> (c + 1, seq_no)) else t
      | None \<Rightarrow> t(census_key g word \<mapsto> (1, seq_no)))"
  unfolding update_seqs_with_words_def census_key_def Let_def ..

lemma update_inv:
  "census_inv L t \<Longrightarrow> 1 \<le> seq_no \<Longrightarrow> seq_no \<le> L \<Longrightarrow>
     census_inv L (update_seqs_with_words t word seq_no g)"
  unfolding census_inv_def update_unfold
  by (auto split: option.splits if_splits) fastforce+

lemma fold_words_inv:
  "census_inv L t \<Longrightarrow> 1 \<le> seq_no \<Longrightarrow> seq_no \<le> L \<Longrightarrow>
     census_inv L (fold (\<lambda>i seqs_with_words.
             let word = py_slice s i (i + w) in
             if CHR ''n'' \<in> set word \<or> CHR ''N'' \<in> set word then seqs_with_words
             else update_seqs_with_words seqs_with_words word seq_no g) is t)"
  by (induction "is" arbitrary: t) (auto simp: Let_def update_inv)

lemma count_words_of_seq_inv:
  "census_inv L t \<Longrightarrow> 1 \<le> seq_no \<Longrightarrow> seq_no \<le> L \<Longrightarrow>
     census_inv L (count_words_of_seq s w seq_no g t)"
  unfolding count_words_of_seq_def by (rule fold_words_inv)

lemma count_seqs_of_width_inv:
  "census_inv L t \<Longrightarrow> 0 \<le> seq_no \<Longrightarrow> seq_no + int (length seqs) \<le> L \<Longrightarrow>
     census_inv L (count_seqs_of_width seqs w seq_no g t)"
proof (induction seqs arbitrary: seq_no t)
  case Nil
  then show ?case by simp
next
  case (Cons s seqs)
  from Cons.prems have "census_inv L (count_words_of_seq s w (seq_no + 1) g t)"
    by (intro count_words_of_seq_inv) auto
  with Cons.prems show ?case
    by (auto intro!: Cons.IH)
qed

lemma fold_widths_inv:
  "census_inv (int (length seqs)) t \<Longrightarrow>
     census_inv (int (length seqs)) (fold (\<lambda>w. count_seqs_of_width seqs w 0 g) ws t)"
proof (induction ws arbitrary: t)
  case Nil
  then show ?case by simp
next
  case (Cons w ws)
  from Cons.prems have "census_inv (int (length seqs)) (count_seqs_of_width seqs w 0 g t)"
    by (rule count_seqs_of_width_inv) simp_all
  then show ?case
    by (simp add: Cons.IH)
qed

lemma update_other:
  "k \<noteq> census_key g word \<Longrightarrow> update_seqs_with_words t word seq_no g k = t k"
  by (simp add: update_unfold split: option.splits)

lemma update_same:
  "update_seqs_with_words t word seq_no g (census_key g word) =
     (case t (census_key g word) of
        Some (c, l) \<Rightarrow> if l < seq_no then Some (c + 1, seq_no) else Some (c, l)
      | None \<Rightarrow> Some (1, seq_no))"
  by (simp add: update_unfold split: option.splits)

lemma update_once:
  assumes "once_for t0 seq_no word t"
  shows "once_for t0 seq_no word (update_seqs_with_words t word' seq_no g)"
proof (cases "word = census_key g word'")
  case False
  with assms show ?thesis
    by (simp add: once_for_def update_other)
next
  case True
  from assms consider "t word = t0 word" | "t word = Some (count_of t0 word + 1, seq_no)"
    by (auto simp: once_for_def)
  then show ?thesis
  proof cases
    case 1
    show ?thesis
      unfolding once_for_def True update_same
      using 1 True by (simp add: count_of_def split: option.splits)
  next
    case 2
    show ?thesis
      unfolding once_for_def True update_same
      using 2 True by simp
  qed
qed

lemma fold_words_once:
  "once_for t0 seq_no word t \<Longrightarrow>
     once_for t0 seq_no word (fold (\<lambda>i seqs_with_words.
             let word = py_slice s i (i + w) in
             if CHR ''n'' \<in> set word \<or> CHR ''N'' \<in> set word then seqs_with_words
             else update_seqs_with_words seqs_with_words word seq_no g) is t)"
  by (induction "is" arbitrary: t) (auto simp: Let_def update_once)

lemma count_words_of_seq_once:
  "count_of (count_words_of_seq s w seq_no g t) word \<le> count_of t word + 1"
proof -
  have "once_for t seq_no word t"
    by (simp add: once_for_def)
  then have "once_for t seq_no word (count_words_of_seq s w seq_no g t)"
    unfolding count_words_of_seq_def by (rule fold_words_once)
  then show ?thesis
    by (auto simp: once_for_def count_of_def)
qed

text \<open>
  Claim C8. For every word counted by the word census, the recorded sequence count never
  exceeds the number of sequences in the input set: the count is at most the high-water
  mark \<open>last_seq\<close>, which is at most the number of sequences, and scanning one sequence
  raises the count of a word by at most one, however often the word occurs in it.
\<close>

theorem census_count_bounded:
  assumes "count_seqs_with_words seqs minw maxw given_only word = Some (seq_count, last_seq)"
  shows "1 \<le> seq_count \<and> seq_count \<le> last_seq \<and> last_seq \<le> int (length seqs)
       \<and> count_of (count_words_of_seq s w seq_no given_only t) word \<le> count_of t word + 1"
proof -
  have "census_inv (int (length seqs)) Map.empty"
    by (simp add: census_inv_def)
  then have "census_inv (int (length seqs)) (count_seqs_with_words seqs minw maxw given_only)"
    unfolding count_seqs_with_words_def by (rule fold_widths_inv)
  with assms count_words_of_seq_once show ?thesis
    unfolding census_inv_def by blast
qed

theorem census_count_bounded_witness:
  "count_seqs_with_words [''ACAC'', ''GTNAC''] 2 2 False ''AC'' = Some (2, 2)
   \<and> (2::int) \<le> int (length [''ACAC'', ''GTNAC''])
   \<and> count_of (count_words_of_seq ''ACAC'' 2 1 False Map.empty) ''AC'' \<le> count_of Map.empty ''AC'' + 1"
proof -
  have h: "count_seqs_with_words [''ACAC'', ''GTNAC''] 2 2 False ''AC'' = Some (2, 2)"
    by (simp add: count_seqs_with_words_def py_range_def upto.simps count_words_of_seq_def
        py_slice_def slice_index_def update_seqs_with_words_def py_min_def get_rc_def
        translate_rc_def rc_table_def Let_def)
  from census_count_bounded [OF h, of "''ACAC''" 2 1 Map.empty] h show ?thesis
    by simp
qed

subsection \<open>Ambiguity generalizer\<close>

lemma combine_ambigs_frame:
  "combine_ambigs am P N ambigs cc = Inr cc' \<Longrightarrow> k \<notin> set ambigs \<Longrightarrow> cc' k = cc k"
proof (induction ambigs arbitrary: cc)
  case Nil
  then show ?case by simp
next
  case (Cons a rest)
  then show ?case
    by (auto simp: combine_counts_def split: option.splits list.splits if_splits prod.splits)
qed

lemma topo_ok_dna: "topo_ok dna_ambig_mappings dna_ambigs"
  by (simp add: dna_ambig_mappings_def dna_ambigs_def)

lemma combine_ambigs_total:
  "topo_ok am ambigs \<Longrightarrow> P \<noteq> 0 \<Longrightarrow> N \<noteq> 0 \<Longrightarrow> \<exists>cc'. combine_ambigs am P N ambigs cc = Inr cc'"
proof (induction ambigs arbitrary: cc)
  case Nil
  then show ?case by simp
next
  case (Cons a rest)
  then show ?case
    by (auto simp: combine_counts_def split: option.splits list.splits prod.splits)
qed

lemma combine_ambigs_entries:
  "combine_ambigs am P N ambigs cc = Inr cc' \<Longrightarrow> topo_ok am ambigs \<Longrightarrow>
   set ambigs \<inter> dom cc = {} \<Longrightarrow> a \<in> set ambigs \<Longrightarrow> map_of am a = Some [x, y] \<Longrightarrow>
   cc' a = combined_entry P N cc' x y"
proof (induction ambigs arbitrary: cc)
  case Nil
  then show ?case by simp
next
  case (Cons b rest)
  from Cons.prems(2) obtain u v where uv: "map_of am b = Some [u, v]"
    and fresh: "u \<notin> set (b # rest)" "v \<notin> set (b # rest)" "b \<notin> set rest"
    and topo: "topo_ok am rest"
    by (auto split: option.splits list.splits)
  from Cons.prems(3) have bnone: "cc b = None" by auto
  define cc1 where "cc1 = (case combined_entry P N cc u v of None \<Rightarrow> cc | Some e \<Rightarrow> cc(b \<mapsto> e))"
  have step: "combine_ambigs am P N rest cc1 = Inr cc'"
    using Cons.prems(1) uv
    by (auto simp: cc1_def combined_entry_def combine_counts_def
        split: option.splits prod.splits if_splits)
  have disj: "set rest \<inter> dom cc1 = {}"
    using Cons.prems(3) fresh by (auto simp: cc1_def split: option.splits)
  show ?case
  proof (cases "a = b")
    case False
    with Cons.prems have "a \<in> set rest" by simp
    from Cons.IH [OF step topo disj this Cons.prems(5)] show ?thesis .
  next
    case True
    with uv Cons.prems(5) have xy: "x = u" "y = v" by auto
    have keep: "cc' b = cc1 b" "cc' u = cc1 u" "cc' v = cc1 v"
      using combine_ambigs_frame [OF step] fresh by auto
    have same: "cc1 u = cc u" "cc1 v = cc v"
      using fresh by (auto simp: cc1_def split: option.splits)
    have "cc1 b = combined_entry P N cc u v"
      using bnone by (auto simp: cc1_def split: option.splits)
    with keep same True xy show ?thesis
      by (simp add: combined_entry_def)
  qed
qed

text \<open>
  Claim C4. In the ambiguity generalizer, when both constituent letters of an ambiguity
  code have count entries \<open>(p1, n1)\<close> and \<open>(p2, n2)\<close>, the counts stored for the code are
  exactly \<open>round(p1 + p2 - p1 * p2 / P)\<close> and \<open>round(n1 + n2 - n1 * n2 / N)\<close>, and
  otherwise the code gets no entry. The entries of the constituents are those of the
  final table: the codes are processed doublets first, then triples, then N, so a later
  combination reads the entry an earlier one has written. The base letters keep their
  entries. (Counts are combined in the reals; \<open>P\<close> and \<open>N\<close> are not 0.)
\<close>

theorem combine_ambigs_inclusion_exclusion:
  assumes "dom c_counts \<subseteq> set alph" and "P \<noteq> 0" and "N \<noteq> 0"
  shows "\<exists>cc'. combine_ambigs dna_ambig_mappings P N dna_ambigs c_counts = Inr cc'
           \<and> (\<forall>k \<in> set alph. cc' k = c_counts k)
           \<and> (\<forall>a x y. map_of dna_ambig_mappings a = Some [x, y] \<longrightarrow>
                 cc' a = (case (cc' x, cc' y) of
                            (Some (p1, n1), Some (p2, n2)) \<Rightarrow>
                              Some (py_round (real_of_int (p1 + p2) - real_of_int (p1 * p2) / real_of_int P),
                                    py_round (real_of_int (n1 + n2) - real_of_int (n1 * n2) / real_of_int N))
                          | _ \<Rightarrow> None))"
proof -
  from combine_ambigs_total [OF topo_ok_dna assms(2,3)] obtain cc'
    where cc': "combine_ambigs dna_ambig_mappings P N dna_ambigs c_counts = Inr cc'"
    by blast
  have disj: "set dna_ambigs \<inter> dom c_counts = {}"
    using assms(1) by (auto simp: dna_ambigs_def alph_def)
  have base: "cc' k = c_counts k" if "k \<in> set alph" for k
    using combine_ambigs_frame [OF cc', of k] that by (auto simp: dna_ambigs_def alph_def)
  have ent: "cc' a = combined_entry P N cc' x y"
    if "map_of dna_ambig_mappings a = Some [x, y]" for a x y
  proof -
    from that have "a \<in> set dna_ambigs"
      by (auto simp: dna_ambig_mappings_def dna_ambigs_def split: if_splits)
    from combine_ambigs_entries [OF cc' topo_ok_dna disj this that] show ?thesis .
  qed
  from cc' base ent show ?thesis
    unfolding combined_entry_def union_estimate_def by blast
qed

theorem combine_ambigs_inclusion_exclusion_witness:
  "dom [CHR ''A'' \<mapsto> (6::int, 1::int), CHR ''C'' \<mapsto> (5, 2)] \<subseteq> set alph \<and> (10::int) \<noteq> 0
   \<and> (\<exists>cc'. combine_ambigs dna_ambig_mappings 10 10 dna_ambigs
               [CHR ''A'' \<mapsto> (6, 1), CHR ''C'' \<mapsto> (5, 2)] = Inr cc'
         \<and> cc' (CHR ''A'') = Some (6, 1) \<and> cc' (CHR ''C'') = Some (5, 2)
         \<and> cc' (CHR ''M'') = Some (8, 3))"
proof -
  have d: "dom [CHR ''A'' \<mapsto> (6::int, 1::int), CHR ''C'' \<mapsto> (5, 2)] \<subseteq> set alph"
    by (simp add: alph_def)
  have z: "(10::int) \<noteq> 0" by simp
  from combine_ambigs_inclusion_exclusion [OF d z z] obtain cc'
    where run: "combine_ambigs dna_ambig_mappings 10 10 dna_ambigs
               [CHR ''A'' \<mapsto> (6, 1), CHR ''C'' \<mapsto> (5, 2)] = Inr cc'"
      and base: "\<forall>k \<in> set alph. cc' k = [CHR ''A'' \<mapsto> (6, 1), CHR ''C'' \<mapsto> (5, 2)] k"
      and ent: "\<forall>a x y. map_of dna_ambig_mappings a = Some [x, y] \<longrightarrow>
                 cc' a = (case (cc' x, cc' y) of
                            (Some (p1, n1), Some (p2, n2)) \<Rightarrow>
                              Some (py_round (real_of_int (p1 + p2) - real_of_int (p1 * p2) / real_of_int 10),
                                    py_round (real_of_int (n1 + n2) - real_of_int (n1 * n2) / real_of_int 10))
                          | _ \<Rightarrow> None)"
    by blast
  from base have a: "cc' (CHR ''A'') = Some (6, 1)" and c: "cc' (CHR ''C'') = Some (5, 2)"
    by (simp_all add: alph_def)
  have "map_of dna_ambig_mappings (CHR ''M'') = Some [CHR ''A'', CHR ''C'']"
    by (simp add: dna_ambig_mappings_def)
  with ent have "cc' (CHR ''M'') = (case (cc' (CHR ''A''), cc' (CHR ''C'')) of
                            (Some (p1, n1), Some (p2, n2)) \<Rightarrow>
                              Some (py_round (real_of_int (p1 + p2) - real_of_int (p1 * p2) / real_of_int 10),
                                    py_round (real_of_int (n1 + n2) - real_of_int (n1 * n2) / real_of_int 10))
                          | _ \<Rightarrow> None)"
    by blast
  with a c have "cc' (CHR ''M'') = Some (8, 3)"
    by (simp add: py_round_def)
  with d z run a c show ?thesis by blast
qed

lemma hd_get_rc: "w \<noteq> [] \<Longrightarrow> hd (get_rc w) = translate_rc (last w)"
  by (simp add: get_rc_def hd_rev last_map)

lemma last_get_rc: "w \<noteq> [] \<Longrightarrow> last (get_rc w) = translate_rc (hd w)"
  by (simp add: get_rc_def last_rev hd_map)

lemma re_index_cases: "re_index g w = w \<or> (\<not> g \<and> re_index g w = get_rc w)"
  by (auto simp: re_index_def py_min_def)

lemma re_index_boundary:
  assumes "w \<noteq> []" "hd w \<noteq> CHR ''N''" "last w \<noteq> CHR ''N''"
  shows "hd (re_index g w) \<noteq> CHR ''N'' \<and> last (re_index g w) \<noteq> CHR ''N''"
  using assms re_index_cases [of g w]
  by (auto simp: hd_get_rc last_get_rc translate_rc_N)

lemma subst_letter_update: "i < length re \<Longrightarrow> subst_letter re i k = re[i := k]"
  by (simp add: subst_letter_def upd_conv_take_nth_drop)

lemma fold_base_counts_dom:
  "dom (fold (\<lambda>k c_counts.
             let new_re = subst_letter re i k;
                 index = re_index given_only new_re
             in case re_pvalues index of
                  Some r \<Rightarrow>
                    if pv_log_pvalue r < thr
                    then c_counts(k \<mapsto> (pv_p r, pv_n r)) else c_counts
                | None \<Rightarrow> c_counts) ks cc) \<subseteq> dom cc \<union> set ks"
proof (induction ks arbitrary: cc)
  case Nil
  then show ?case by simp
next
  case (Cons k ks)
  show ?case
    by (simp add: Let_def split: option.splits) (use Cons.IH in \<open>fastforce split: if_splits\<close>)
qed

lemma base_counts_dom: "dom (base_counts re re_pvalues ks thr g i) \<subseteq> set ks"
  unfolding base_counts_def using fold_base_counts_dom [of _ _ _ _ _ ks Map.empty] by simp

lemma combine_ambigs_dom:
  "combine_ambigs am P N ambigs cc = Inr cc' \<Longrightarrow> dom cc' \<subseteq> dom cc \<union> set ambigs"
proof (induction ambigs arbitrary: cc)
  case Nil
  then show ?case by simp
next
  case (Cons a rest)
  from Cons.prems obtain cc1 where step: "combine_ambigs am P N rest cc1 = Inr cc'"
    and d1: "dom cc1 \<subseteq> insert a (dom cc)"
    by (auto simp: combine_counts_def split: option.splits list.splits if_splits prod.splits)
  from Cons.IH [OF step] d1 show ?case by auto
qed

lemma store_generalized_changed:
  "store_generalized fet re ks0 P N g i cc ks new idx \<noteq> new idx \<Longrightarrow>
     \<exists>k. cc k \<noteq> None \<and> k \<notin> set ks0 \<and> hd (subst_letter re i k) \<noteq> CHR ''N''
        \<and> last (subst_letter re i k) \<noteq> CHR ''N'' \<and> idx = re_index g (subst_letter re i k)"
proof (induction ks arbitrary: new)
  case Nil
  then show ?case by simp
next
  case (Cons k ks)
  show ?case
  proof (cases "cc k")
    case None
    with Cons show ?thesis by simp
  next
    case (Some pn)
    obtain p n where pn: "pn = (p, n)" by (cases pn)
    show ?thesis
    proof (cases "k \<in> set ks0 \<or> hd (subst_letter re i k) = CHR ''N''
                   \<or> last (subst_letter re i k) = CHR ''N''")
      case True
      with Some pn have "store_generalized fet re ks0 P N g i cc (k # ks) new
          = store_generalized fet re ks0 P N g i cc ks new"
        by (auto simp: Let_def)
      with Cons.prems have "store_generalized fet re ks0 P N g i cc ks new idx \<noteq> new idx"
        by simp
      from Cons.IH [OF this] show ?thesis .
    next
      case False
      define new1 where "new1 = new(re_index g (subst_letter re i k) \<mapsto>
            \<lparr>pv_p = p, pv_P = P, pv_n = n, pv_N = N,
             pv_log_pvalue = getLogPvalue fet p P n N, pv_dist = None\<rparr>)"
      from False Some pn have eq: "store_generalized fet re ks0 P N g i cc (k # ks) new
          = store_generalized fet re ks0 P N g i cc ks new1"
        by (simp add: Let_def new1_def)
      show ?thesis
      proof (cases "store_generalized fet re ks0 P N g i cc ks new1 idx \<noteq> new1 idx")
        case True
        from Cons.IH [OF True] show ?thesis .
      next
        case same: False
        with Cons.prems eq have "new1 idx \<noteq> new idx" by simp
        then have "idx = re_index g (subst_letter re i k)"
          by (auto simp: new1_def split: if_splits)
        with False Some pn show ?thesis
          by (intro exI [of _ k]) simp
      qed
    qed
  qed
qed

lemma generalize_column_changed:
  assumes "generalize_column fet ko re re_pvalues ks0 ambigs am thr g P N i new = Inr new'"
    and "new' idx \<noteq> new idx"
  shows "re ! i \<in> set ks0 \<and>
         (\<exists>k. k \<in> set ambigs \<and> k \<notin> set ks0 \<and> hd (subst_letter re i k) \<noteq> CHR ''N''
            \<and> last (subst_letter re i k) \<noteq> CHR ''N'' \<and> idx = re_index g (subst_letter re i k))"
proof -
  from assms have in_alph: "re ! i \<in> set ks0"
    by (auto simp: generalize_column_def split: if_splits)
  with assms(1) obtain cc where cc: "combine_ambigs am P N ambigs
      (base_counts re re_pvalues ks0 thr g i) = Inr cc"
    and new': "new' = store_generalized fet re ks0 P N g i cc ko new"
    by (cases "combine_ambigs am P N ambigs (base_counts re re_pvalues ks0 thr g i)")
       (auto simp: generalize_column_def)
  from assms(2) new' store_generalized_changed [of fet re ks0 P N g i cc ko new idx]
  obtain k where k: "cc k \<noteq> None" "k \<notin> set ks0" "hd (subst_letter re i k) \<noteq> CHR ''N''"
      "last (subst_letter re i k) \<noteq> CHR ''N''" "idx = re_index g (subst_letter re i k)"
    by blast
  from combine_ambigs_dom [OF cc] base_counts_dom [of re re_pvalues ks0 thr g i] k(1,2)
  have "k \<in> set ambigs" by blast
  with in_alph k show ?thesis by blast
qed

lemma generalize_columns_changed:
  "generalize_columns col is new = Inr new' \<Longrightarrow> new' idx \<noteq> new idx \<Longrightarrow>
     \<exists>i \<in> set is. \<exists>m m'. col i m = Inr m' \<and> m' idx \<noteq> m idx"
proof (induction "is" arbitrary: new)
  case Nil
  then show ?case by simp
next
  case (Cons i "is")
  from Cons.prems(1) obtain m1 where m1: "col i new = Inr m1"
    and rest: "generalize_columns col is m1 = Inr new'"
    by (cases "col i new") auto
  show ?case
  proof (cases "m1 idx = new idx")
    case True
    with Cons.prems(2) have "new' idx \<noteq> m1 idx" by simp
    from Cons.IH [OF rest this] show ?thesis by auto
  next
    case False
    with m1 show ?thesis by auto
  qed
qed

text \<open>
  Claim C6, as amended. Every pattern record that one step of \<^verbatim>\<open>re_generalize\<close>
  stores is stored under the key of a generalized pattern that differs from the source
  pattern at exactly one position, where the source has an exact base and the
  generalized pattern an ambiguity code, and that has no N as its first or last letter.
  The key is the generalized pattern itself when only the given strand is searched, and
  the smaller of it and its reverse complement otherwise; in both cases the key has no
  N as its first or last letter.
\<close>

theorem re_generalize_stored_keys:
  assumes "re_generalize fet key_order re re_pvalues alph dna_ambigs dna_ambig_mappings
             new_re_pvalues log_add_pthresh given_only = Inr new'"
    and "new' index \<noteq> new_re_pvalues index"
  shows "\<exists>i k. i < length re \<and> re ! i \<in> set alph \<and> k \<in> set dna_ambigs \<and> k \<noteq> re ! i
           \<and> hd (re[i := k]) \<noteq> CHR ''N'' \<and> last (re[i := k]) \<noteq> CHR ''N''
           \<and> (index = re[i := k] \<or> (\<not> given_only \<and> index = get_rc (re[i := k])))
           \<and> index = re_index given_only (re[i := k])
           \<and> hd index \<noteq> CHR ''N'' \<and> last index \<noteq> CHR ''N''"
proof -
  from assms(1) obtain v where v: "re_pvalues re = Some v"
    and cols: "generalize_columns
            (generalize_column fet key_order re re_pvalues alph dna_ambigs dna_ambig_mappings
               log_add_pthresh given_only (pv_P v) (pv_N v))
            [0..<length re] new_re_pvalues = Inr new'"
    by (auto simp: re_generalize_def split: option.splits)
  from generalize_columns_changed [OF cols assms(2)] obtain i m m'
    where i: "i < length re"
      and col: "generalize_column fet key_order re re_pvalues alph dna_ambigs dna_ambig_mappings
               log_add_pthresh given_only (pv_P v) (pv_N v) i m = Inr m'"
      and ch: "m' index \<noteq> m index"
    by auto
  from generalize_column_changed [OF col ch] obtain k
    where base: "re ! i \<in> set alph"
      and k: "k \<in> set dna_ambigs" "k \<notin> set alph"
        "hd (subst_letter re i k) \<noteq> CHR ''N''" "last (subst_letter re i k) \<noteq> CHR ''N''"
        "index = re_index given_only (subst_letter re i k)"
    by blast
  have upd: "subst_letter re i k = re[i := k]"
    using i by (rule subst_letter_update)
  have ne: "re[i := k] \<noteq> []"
    using i by auto
  from base k(2) have diff: "k \<noteq> re ! i" by auto
  from re_index_boundary [OF ne, of given_only] k(3,4) upd
  have bnd: "hd (re_index given_only (re[i := k])) \<noteq> CHR ''N''
      \<and> last (re_index given_only (re[i := k])) \<noteq> CHR ''N''"
    by simp
  from re_index_cases [of given_only "re[i := k]"] k(5) upd
  have form: "index = re[i := k] \<or> (\<not> given_only \<and> index = get_rc (re[i := k]))"
    by auto
  from i base k(1) diff k(3,4,5) upd bnd form show ?thesis
    by (intro exI [of _ i] exI [of _ k]) simp
qed

lemma generalize_example:
  "re_generalize (\<lambda>a b c d. (0, 0, 0, 0, -9)) ''ACGTRYKMSWBDHVN'' ''AC''
      [''AC'' \<mapsto> mk_rec 6 10 1 10 (-5), ''CC'' \<mapsto> mk_rec 5 10 2 10 (-6)]
      alph dna_ambigs dna_ambig_mappings Map.empty (-2) False
    = Inr [''GK'' \<mapsto> mk_rec 8 10 3 10 (-9)]"
  by (simp add: re_generalize_def mk_rec_def generalize_column_def alph_def dna_ambigs_def
      dna_ambig_mappings_def base_counts_def subst_letter_def re_index_def py_min_def
      get_rc_def translate_rc_def rc_table_def combine_counts_def union_estimate_def
      py_round_def getLogPvalue_def getLogPvalue_traced_def fet_index4_def Let_def
      less_char_def)


theorem re_generalize_stored_keys_witness:
  "re_generalize (\<lambda>a b c d. (0, 0, 0, 0, -9)) ''ACGTRYKMSWBDHVN'' ''AC''
      [''AC'' \<mapsto> mk_rec 6 10 1 10 (-5), ''CC'' \<mapsto> mk_rec 5 10 2 10 (-6)]
      alph dna_ambigs dna_ambig_mappings Map.empty (-2) False
    = Inr [''GK'' \<mapsto> mk_rec 8 10 3 10 (-9)]
   \<and> [''GK'' \<mapsto> mk_rec 8 10 3 10 (-9)] ''GK'' \<noteq> (Map.empty :: re_table) ''GK''
   \<and> (\<exists>i k. i < length ''AC'' \<and> ''AC'' ! i \<in> set alph \<and> k \<in> set dna_ambigs \<and> k \<noteq> ''AC'' ! i
           \<and> hd (''AC''[i := k]) \<noteq> CHR ''N'' \<and> last (''AC''[i := k]) \<noteq> CHR ''N''
           \<and> (''GK'' = ''AC''[i := k] \<or> (\<not> False \<and> ''GK'' = get_rc (''AC''[i := k])))
           \<and> ''GK'' = re_index False (''AC''[i := k])
           \<and> hd ''GK'' \<noteq> CHR ''N'' \<and> last ''GK'' \<noteq> CHR ''N'')"
proof -
  have ch: "[''GK'' \<mapsto> mk_rec 8 10 3 10 (-9)] ''GK'' \<noteq> (Map.empty :: re_table) ''GK''"
    by simp
  from re_generalize_stored_keys [OF generalize_example ch] generalize_example ch
  show ?thesis by blast
qed

text \<open>
  Claim C6 as stated fails when both strands are searched: generalizing \<open>AC\<close> in its
  first column to \<open>MC\<close> stores the record under the reverse complement \<open>GK\<close>, which
  differs from the source pattern \<open>AC\<close> at both positions.
\<close>

theorem re_generalize_stored_keys_counterexample:
  "re_generalize (\<lambda>a b c d. (0, 0, 0, 0, -9)) ''ACGTRYKMSWBDHVN'' ''AC''
      [''AC'' \<mapsto> mk_rec 6 10 1 10 (-5), ''CC'' \<mapsto> mk_rec 5 10 2 10 (-6)]
      alph dna_ambigs dna_ambig_mappings Map.empty (-2) False
    = Inr [''GK'' \<mapsto> mk_rec 8 10 3 10 (-9)]
   \<and> diff_positions ''GK'' ''AC'' = 2"
  using generalize_example by (simp add: diff_positions_def)
subsection \<open>Erased spans\<close>

lemma get_rc_no_N:
  assumes "CHR ''N'' \<notin> set w"
  shows "CHR ''N'' \<notin> set (get_rc w)"
proof
  assume "CHR ''N'' \<in> set (get_rc w)"
  then obtain c where c: "c \<in> set w" "translate_rc c = CHR ''N''"
    by (auto simp: get_rc_def)
  from c(2) have "c = CHR ''N''" by (simp add: translate_rc_N)
  with c(1) assms show False by simp
qed

lemma census_key_no_N: "CHR ''N'' \<notin> set w \<Longrightarrow> CHR ''N'' \<notin> set (census_key g w)"
  by (simp add: census_key_def py_min_def get_rc_no_N)

lemma update_no_N:
  assumes "no_N_keys t" and "CHR ''N'' \<notin> set word"
  shows "no_N_keys (update_seqs_with_words t word seq_no g)"
  unfolding no_N_keys_def
proof (intro allI impI)
  fix w assume w: "update_seqs_with_words t word seq_no g w \<noteq> None"
  show "CHR ''N'' \<notin> set w"
  proof (cases "w = census_key g word")
    case True
    with assms(2) show ?thesis by (simp add: census_key_no_N)
  next
    case False
    with w have "t w \<noteq> None" by (simp add: update_other)
    with assms(1) show ?thesis by (simp add: no_N_keys_def)
  qed
qed

lemma fold_words_no_N:
  "no_N_keys t \<Longrightarrow>
     no_N_keys (fold (\<lambda>i seqs_with_words.
             let word = py_slice s i (i + w) in
             if CHR ''n'' \<in> set word \<or> CHR ''N'' \<in> set word then seqs_with_words
             else update_seqs_with_words seqs_with_words word seq_no g) is t)"
  by (induction "is" arbitrary: t) (auto simp: Let_def update_no_N)

lemma count_seqs_of_width_no_N:
  "no_N_keys t \<Longrightarrow> no_N_keys (count_seqs_of_width seqs w seq_no g t)"
proof (induction seqs arbitrary: seq_no t)
  case Nil
  then show ?case by simp
next
  case (Cons s seqs)
  from Cons.prems have "no_N_keys (count_words_of_seq s w (seq_no + 1) g t)"
    unfolding count_words_of_seq_def by (rule fold_words_no_N)
  then show ?case by (simp add: Cons.IH)
qed

lemma census_no_N: "no_N_keys (count_seqs_with_words seqs minw maxw g)"
proof -
  have "no_N_keys (fold (\<lambda>w. count_seqs_of_width seqs w 0 g) ws t)" if "no_N_keys t" for ws t
    using that by (induction ws arbitrary: t) (simp_all add: count_seqs_of_width_no_N)
  moreover have "no_N_keys Map.empty" by (simp add: no_N_keys_def)
  ultimately show ?thesis by (simp add: count_seqs_with_words_def)
qed

lemma census_erased_example:
  "count_seqs_with_words [''TTNNNNAA''] 2 2 False ''AA'' = Some (1, 1)
   \<and> count_seqs_with_words [''TTNNNNAA''] 2 2 False ''TN'' = None"
  by (simp add: count_seqs_with_words_def py_range_def upto.simps count_words_of_seq_def
      py_slice_def slice_index_def update_seqs_with_words_def py_min_def get_rc_def
      translate_rc_def rc_table_def Let_def less_char_def)

text \<open>
  Claim C10. For every IUPAC pattern and every input string, every substring matched by
  the matcher compiled with \<^verbatim>\<open>make_dna_re\<close> (in either strand mode, anchored or
  not, at any position) has the pattern's width and consists only of the letters A, C, G
  and T; in particular it never contains the letter N that erasure writes. Nor does any
  word counted by the word census contain the letter N.
\<close>

theorem make_dna_re_matches_acgt:
  assumes "set pat \<subseteq> iupac"
  shows "(\<exists>ms. make_dna_re pat given_only complete_flag = Inr ms \<and>
          (\<forall>s i m. matched_at ms s i = Some m \<longrightarrow>
             length m = length pat \<and> set m \<subseteq> set ''ACGT'' \<and> CHR ''N'' \<notin> set m))
       \<and> (\<forall>word. count_seqs_with_words seqs minw maxw strand word \<noteq> None \<longrightarrow>
             CHR ''N'' \<notin> set word)"
proof -
  from make_dna_re_total [OF assms] obtain ms
    where ms: "make_dna_re pat given_only complete_flag = Inr ms" by blast
  then have c: "compiled_for (length pat) ms"
    using make_dna_re_compiled by blast
  have "length m = length pat \<and> set m \<subseteq> set ''ACGT'' \<and> CHR ''N'' \<notin> set m"
    if "matched_at ms s i = Some m" for s i m
  proof -
    from that obtain k where k: "match_here ms (i = 0) (drop i s) = Some k"
      and m: "m = take k (drop i s)"
      by (auto simp: matched_at_def split: if_splits)
    from match_here_acgt [OF c k] m show ?thesis by (auto simp: acgt_def)
  qed
  with ms have first: "\<exists>ms. make_dna_re pat given_only complete_flag = Inr ms \<and>
          (\<forall>s i m. matched_at ms s i = Some m \<longrightarrow>
             length m = length pat \<and> set m \<subseteq> set ''ACGT'' \<and> CHR ''N'' \<notin> set m)"
    by blast
  from census_no_N [of seqs minw maxw strand]
  have "\<forall>word. count_seqs_with_words seqs minw maxw strand word \<noteq> None \<longrightarrow>
             CHR ''N'' \<notin> set word"
    by (simp add: no_N_keys_def)
  with first show ?thesis by blast
qed

theorem make_dna_re_matches_acgt_witness:
  "set ''ACR'' \<subseteq> iupac \<and>
   (\<exists>ms. make_dna_re ''ACR'' False False = Inr ms \<and>
      matched_at ms ''TTACGNCGTA'' 2 = Some ''ACG'' \<and>
      length ''ACG'' = length ''ACR'' \<and> set ''ACG'' \<subseteq> set ''ACGT'' \<and>
      CHR ''N'' \<notin> set ''ACG'')
   \<and> count_seqs_with_words [''TTNNNNAA''] 2 2 False ''AA'' \<noteq> None
   \<and> CHR ''N'' \<notin> set ''AA''"
proof -
  have h: "set ''ACR'' \<subseteq> iupac"
    by (simp add: iupac_def)
  note both = make_dna_re_matches_acgt [OF h, of False False "[''TTNNNNAA'']" 2 2 False]
  from both obtain ms
    where ms: "make_dna_re ''ACR'' False False = Inr ms"
      and all: "\<forall>s i m. matched_at ms s i = Some m \<longrightarrow>
             length m = length ''ACR'' \<and> set m \<subseteq> set ''ACGT'' \<and> CHR ''N'' \<notin> set m"
    by blast
  have "make_dna_re ''ACR'' False False =
      Inr \<lparr>alts = [[''A'', ''C'', ''AG''], [''CT'', ''G'', ''T'']], complete = False\<rparr>"
    by (simp add: make_dna_re_def get_rc_def translate_rc_def rc_table_def ambig_to_dna_def)
  with ms have "ms = \<lparr>alts = [[''A'', ''C'', ''AG''], [''CT'', ''G'', ''T'']], complete = False\<rparr>"
    by simp
  then have m: "matched_at ms ''TTACGNCGTA'' 2 = Some ''ACG''"
    by (simp add: matched_at_def match_here_def)
  from all m have first: "length ''ACG'' = length ''ACR'' \<and> set ''ACG'' \<subseteq> set ''ACGT''
      \<and> CHR ''N'' \<notin> set ''ACG''"
    by blast
  from census_erased_example have counted: "count_seqs_with_words [''TTNNNNAA''] 2 2 False ''AA'' \<noteq> None"
    by simp
  with both have "CHR ''N'' \<notin> set ''AA''"
    by blast
  with h ms m first counted show ?thesis by blast
qed
subsection \<open>Set-up and discovery loop\<close>















text \<open>
  Claim C2, as amended. When \<^verbatim>\<open>max_motifs\<close> is 1 and the first motif found is
  significant (its log E-value is at most \<^verbatim>\<open>log(ethresh)\<close>), the discovery loop
  terminates in its first iteration with stop cause \<^verbatim>\<open>count\<close> and one motif counted;
  it does so before the erasure step, so both sequence sets are left as they were.
\<close>

theorem main_loop_count_stop:
  assumes "opt_max_motifs opts = Some 1" and "ls_nmotifs st = 0"
    and "opt_max_time opts = None \<or> \<not> env_search_deadline_passed env 1"
    and "0 < opt_add_pthresh opts" and "0 < opt_ethresh opts"
    and "env_find_print env 1 (ls_pos_seqs st) (ls_neg_seqs st) (ln (opt_add_pthresh opts))
           = Inr (word, rc_word, pvalue, Evalue, word_pvalues)"
    and "Evalue \<le> ln (opt_ethresh opts)"
  shows "main_loop (Suc fuel) env opts st =
           Some (Inr \<lparr>stop_cause = ''count'',
                      final_state = st\<lparr>ls_unerased_word_pvalues := word_pvalues,
                                       ls_nmotifs := 1\<rparr>\<rparr>)
         \<and> ls_pos_seqs (st\<lparr>ls_unerased_word_pvalues := word_pvalues, ls_nmotifs := 1\<rparr>)
             = ls_pos_seqs st
         \<and> ls_neg_seqs (st\<lparr>ls_unerased_word_pvalues := word_pvalues, ls_nmotifs := 1\<rparr>)
             = ls_neg_seqs st"
proof -
  have search: "(if opt_max_time opts \<noteq> None \<and> env_search_deadline_passed env (ls_nmotifs st + 1)
            then Inl TimeoutError
            else bind_err (py_log (opt_add_pthresh opts))
                   (env_find_print env (ls_nmotifs st + 1) (ls_pos_seqs st) (ls_neg_seqs st)))
        = Inr (word, rc_word, pvalue, Evalue, word_pvalues)"
    using assms(2,3,4,6) by (auto simp: py_log_def)
  have le: "py_log (opt_ethresh opts) = Inr (ln (opt_ethresh opts))"
    using assms(5) by (simp add: py_log_def)
  show ?thesis
    unfolding main_loop.simps search
    using assms(1,2,7) le by (simp add: Let_def)
qed

lemma loop_example:
  "main_loop (Suc 0)
     \<lparr>env_find_print = (\<lambda>motif_num pos neg log_add. Inr (''ACGT'', ''ACGT'', -20, -10, Map.empty)),
      env_search_deadline_passed = (\<lambda>m. False), env_erase_deadline_passed = (\<lambda>m. False)\<rparr>
     (default_options\<lparr>opt_add_pthresh := 1, opt_ethresh := 1, opt_max_motifs := Some 1,
                      opt_pos_seq_file_name := Some ''pos.fa''\<rparr>)
     \<lparr>ls_pos_seqs = [''TTACGTAA''], ls_neg_seqs = [''CCCC''], ls_nmotifs = 0,
      ls_unerased_word_pvalues = Map.empty\<rparr>
   = Some (Inr \<lparr>stop_cause = ''count'',
                final_state = \<lparr>ls_pos_seqs = [''TTACGTAA''], ls_neg_seqs = [''CCCC''],
                               ls_nmotifs = 1, ls_unerased_word_pvalues = Map.empty\<rparr>\<rparr>)"
  by (simp add: py_log_def default_options_def Let_def)

lemma erase_example:
  "erase_re ''ACGT'' [''TTACGTAA''] [''CCCC''] = Inr ([''TTNNNNAA''], [''CCCC''])"
  by (simp add: erase_re_def make_dna_re_def get_rc_def translate_rc_def rc_table_def
      ambig_to_dna_def re_sub_def match_here_def)

theorem main_loop_count_stop_witness:
  "main_loop (Suc 0)
     \<lparr>env_find_print = (\<lambda>motif_num pos neg log_add. Inr (''ACGT'', ''ACGT'', -20, -10, Map.empty)),
      env_search_deadline_passed = (\<lambda>m. False), env_erase_deadline_passed = (\<lambda>m. False)\<rparr>
     (default_options\<lparr>opt_add_pthresh := 1, opt_ethresh := 1, opt_max_motifs := Some 1,
                      opt_pos_seq_file_name := Some ''pos.fa''\<rparr>)
     \<lparr>ls_pos_seqs = [''TTACGTAA''], ls_neg_seqs = [''CCCC''], ls_nmotifs = 0,
      ls_unerased_word_pvalues = Map.empty\<rparr>
   = Some (Inr \<lparr>stop_cause = ''count'',
                final_state = \<lparr>ls_pos_seqs = [''TTACGTAA''], ls_neg_seqs = [''CCCC''],
                               ls_nmotifs = 1, ls_unerased_word_pvalues = Map.empty\<rparr>\<rparr>)"
proof -
  let ?env = "\<lparr>env_find_print = (\<lambda>motif_num pos neg log_add.
                  Inr (''ACGT'', ''ACGT'', -20, -10, Map.empty) :: py_error + found),
      env_search_deadline_passed = (\<lambda>m. False), env_erase_deadline_passed = (\<lambda>m. False)\<rparr>"
  let ?opts = "default_options\<lparr>opt_add_pthresh := 1, opt_ethresh := 1, opt_max_motifs := Some 1,
                      opt_pos_seq_file_name := Some ''pos.fa''\<rparr>"
  let ?st = "\<lparr>ls_pos_seqs = [''TTACGTAA''], ls_neg_seqs = [''CCCC''], ls_nmotifs = 0,
      ls_unerased_word_pvalues = (Map.empty :: re_table)\<rparr>"
  have h1: "opt_max_motifs ?opts = Some 1" by simp
  have h2: "ls_nmotifs ?st = 0" by simp
  have h3: "opt_max_time ?opts = None \<or> \<not> env_search_deadline_passed ?env 1" by simp
  have h4: "0 < opt_add_pthresh ?opts" by simp
  have h5: "0 < opt_ethresh ?opts" by simp
  have h6: "env_find_print ?env 1 (ls_pos_seqs ?st) (ls_neg_seqs ?st) (ln (opt_add_pthresh ?opts))
      = Inr (''ACGT'', ''ACGT'', -20, -10, Map.empty)" by simp
  have h7: "(-10 :: real) \<le> ln (opt_ethresh ?opts)" by simp
  from main_loop_count_stop [OF h1 h2 h3 h4 h5 h6 h7, of 0] show ?thesis
    by simp
qed

text \<open>
  Claim C2 as stated fails: the loop stops with cause \<^verbatim>\<open>count\<close> while the match of
  the motif \<open>ACGT\<close> is still in the positive set, which \<^verbatim>\<open>erase_re\<close> would have
  overwritten.
\<close>

theorem main_loop_count_stop_counterexample:
  "main_loop (Suc 0)
     \<lparr>env_find_print = (\<lambda>motif_num pos neg log_add. Inr (''ACGT'', ''ACGT'', -20, -10, Map.empty)),
      env_search_deadline_passed = (\<lambda>m. False), env_erase_deadline_passed = (\<lambda>m. False)\<rparr>
     (default_options\<lparr>opt_add_pthresh := 1, opt_ethresh := 1, opt_max_motifs := Some 1,
                      opt_pos_seq_file_name := Some ''pos.fa''\<rparr>)
     \<lparr>ls_pos_seqs = [''TTACGTAA''], ls_neg_seqs = [''CCCC''], ls_nmotifs = 0,
      ls_unerased_word_pvalues = Map.empty\<rparr>
   = Some (Inr \<lparr>stop_cause = ''count'',
                final_state = \<lparr>ls_pos_seqs = [''TTACGTAA''], ls_neg_seqs = [''CCCC''],
                               ls_nmotifs = 1, ls_unerased_word_pvalues = Map.empty\<rparr>\<rparr>)
   \<and> erase_re ''ACGT'' [''TTACGTAA''] [''CCCC''] = Inr ([''TTNNNNAA''], [''CCCC''])
   \<and> [''TTACGTAA''] \<noteq> [''TTNNNNAA'']"
  using loop_example erase_example by simp

subsection \<open>Greedy refiner\<close>

lemma refines_keep:
  "refines_to compute S tbl imp tbl' imp' \<Longrightarrow> tbl k = Some r \<Longrightarrow> tbl' k = Some r \<and> imp' k = imp k"
  unfolding refines_to_def by blast

lemma refines_unknown:
  "refines_to compute S tbl imp tbl' imp' \<Longrightarrow> tbl' k = None \<Longrightarrow> imp' k = imp k"
  unfolding refines_to_def by blast

lemma refines_covered:
  "refines_to compute S tbl imp tbl' imp' \<Longrightarrow> (re, i, l) \<in> S \<Longrightarrow>
     \<exists>r. tbl' (canonical (subst_letter re i l)) = Some r"
  unfolding refines_to_def by blast

lemma refines_new:
  "refines_to compute S tbl imp tbl' imp' \<Longrightarrow> tbl k = None \<Longrightarrow> tbl' k = Some r \<Longrightarrow>
     \<exists>re i l parent. (re, i, l) \<in> S \<and> k = canonical (subst_letter re i l)
        \<and> compute (subst_letter re i l) = Inr r \<and> tbl' re = Some parent
        \<and> imp' k = (if pv_log_pvalue r < pv_log_pvalue parent then Some r else imp k)"
  unfolding refines_to_def by blast

lemma refines_refl: "refines_to compute {} tbl imp tbl imp"
  unfolding refines_to_def by auto

lemma refines_trans:
  assumes a: "refines_to compute S tbl imp tbl1 imp1"
    and b: "refines_to compute S' tbl1 imp1 tbl2 imp2"
  shows "refines_to compute (S \<union> S') tbl imp tbl2 imp2"
  unfolding refines_to_def
proof (intro conjI allI impI)
  fix k r assume "tbl k = Some r"
  from refines_keep [OF a this] have "tbl1 k = Some r" "imp1 k = imp k" by simp_all
  with refines_keep [OF b, of k r] show "tbl2 k = Some r" "imp2 k = imp k" by simp_all
next
  fix k assume n2: "tbl2 k = None"
  have n1: "tbl1 k = None"
  proof (cases "tbl1 k")
    case (Some r)
    from refines_keep [OF b this] n2 show ?thesis by simp
  qed simp
  from refines_unknown [OF b n2] refines_unknown [OF a n1] show "imp2 k = imp k" by simp
next
  fix re i l assume "(re, i, l) \<in> S \<union> S'"
  then consider "(re, i, l) \<in> S" | "(re, i, l) \<in> S'" by auto
  then show "tbl2 (canonical (subst_letter re i l)) \<noteq> None"
  proof cases
    case 1
    from refines_covered [OF a 1] obtain r
      where "tbl1 (canonical (subst_letter re i l)) = Some r" by blast
    from refines_keep [OF b this] show ?thesis by simp
  next
    case 2
    from refines_covered [OF b 2] show ?thesis by auto
  qed
next
  fix k r assume h: "tbl k = None \<and> tbl2 k = Some r"
  then have h1: "tbl k = None" and h2: "tbl2 k = Some r" by simp_all
  show "\<exists>re i l parent. (re, i, l) \<in> S \<union> S' \<and> k = canonical (subst_letter re i l)
          \<and> compute (subst_letter re i l) = Inr r \<and> tbl2 re = Some parent
          \<and> imp2 k = (if pv_log_pvalue r < pv_log_pvalue parent then Some r else imp k)"
  proof (cases "tbl1 k")
    case None
    from refines_unknown [OF a None] have i1: "imp1 k = imp k" .
    from refines_new [OF b None h2] obtain re i l parent where w: "(re, i, l) \<in> S'"
        "k = canonical (subst_letter re i l)" "compute (subst_letter re i l) = Inr r"
        "tbl2 re = Some parent"
        "imp2 k = (if pv_log_pvalue r < pv_log_pvalue parent then Some r else imp1 k)"
      by blast
    with i1 show ?thesis by (intro exI [of _ re] exI [of _ i] exI [of _ l] exI [of _ parent]) simp
  next
    case (Some r1)
    from refines_keep [OF b Some] have t2: "tbl2 k = Some r1" and i2: "imp2 k = imp1 k"
      by simp_all
    with h2 have r1: "r1 = r" by simp
    from Some r1 have "tbl1 k = Some r" by simp
    from refines_new [OF a h1 this] obtain re i l parent where w: "(re, i, l) \<in> S"
        "k = canonical (subst_letter re i l)" "compute (subst_letter re i l) = Inr r"
        "tbl1 re = Some parent"
        "imp1 k = (if pv_log_pvalue r < pv_log_pvalue parent then Some r else imp k)"
      by blast
    from refines_keep [OF b w(4)] have "tbl2 re = Some parent" by simp
    with w i2 show ?thesis
      by (intro exI [of _ re] exI [of _ i] exI [of _ l] exI [of _ parent]) simp
  qed
qed

lemma refine_subst_refines:
  assumes "refine_subst compute re i l (tbl, imp) = Inr (tbl', imp')"
  shows "refines_to compute {(re, i, l)} tbl imp tbl' imp'"
proof (cases "tbl (canonical (subst_letter re i l))")
  case (Some r)
  with assms have "tbl' = tbl" "imp' = imp"
    by (auto simp: refine_subst_def canonical_def Let_def)
  with Some show ?thesis
    by (auto simp: refines_to_def)
next
  case None
  with assms obtain r where r: "compute (subst_letter re i l) = Inr r"
    by (cases "compute (subst_letter re i l)") (auto simp: refine_subst_def canonical_def Let_def)
  with assms None obtain parent where parent: "tbl re = Some parent"
    by (cases "tbl re") (auto simp: refine_subst_def canonical_def Let_def)
  from assms None r parent have t': "tbl' = tbl(canonical (subst_letter re i l) \<mapsto> r)"
    and i': "imp' = (if pv_log_pvalue r < pv_log_pvalue parent
                     then imp(canonical (subst_letter re i l) \<mapsto> r) else imp)"
    by (auto simp: refine_subst_def canonical_def Let_def)
  from None parent have ne: "re \<noteq> canonical (subst_letter re i l)" by auto
  show ?thesis
    unfolding refines_to_def
  proof (intro conjI allI impI)
    fix k r0 assume "tbl k = Some r0"
    with None have "k \<noteq> canonical (subst_letter re i l)" by auto
    with \<open>tbl k = Some r0\<close> t' i' show "tbl' k = Some r0" "imp' k = imp k" by auto
  next
    fix k assume "tbl' k = None"
    with t' have "k \<noteq> canonical (subst_letter re i l)" by auto
    with i' show "imp' k = imp k" by auto
  next
    fix re0 i0 l0 assume "(re0, i0, l0) \<in> {(re, i, l)}"
    with t' show "tbl' (canonical (subst_letter re0 i0 l0)) \<noteq> None" by auto
  next
    fix k r0 assume h: "tbl k = None \<and> tbl' k = Some r0"
    with t' have k: "k = canonical (subst_letter re i l)" and r0: "r0 = r"
      by (auto split: if_splits)
    from t' parent ne have "tbl' re = Some parent" by auto
    with k r0 r i' show "\<exists>re0 i0 l0 parent. (re0, i0, l0) \<in> {(re, i, l)}
          \<and> k = canonical (subst_letter re0 i0 l0)
          \<and> compute (subst_letter re0 i0 l0) = Inr r0 \<and> tbl' re0 = Some parent
          \<and> imp' k = (if pv_log_pvalue r0 < pv_log_pvalue parent then Some r0 else imp k)"
      by (intro exI [of _ re] exI [of _ i] exI [of _ l] exI [of _ parent]) auto
  qed
qed

lemma fold_err_refines:
  assumes "\<And>x tbl imp tbl' imp'. x \<in> set xs \<Longrightarrow> f x (tbl, imp) = Inr (tbl', imp') \<Longrightarrow>
             refines_to compute (S x) tbl imp tbl' imp'"
    and "fold_err f xs (tbl, imp) = Inr (tbl', imp')"
  shows "refines_to compute (\<Union>x \<in> set xs. S x) tbl imp tbl' imp'"
  using assms
proof (induction xs arbitrary: tbl imp)
  case Nil
  then show ?case by (simp add: refines_refl)
next
  case (Cons x xs)
  from Cons.prems(2) obtain tbl1 imp1 where s1: "f x (tbl, imp) = Inr (tbl1, imp1)"
    and rest: "fold_err f xs (tbl1, imp1) = Inr (tbl', imp')"
    by (cases "f x (tbl, imp)") auto
  have first: "refines_to compute (S x) tbl imp tbl1 imp1"
    using Cons.prems(1) s1 by simp
  have "refines_to compute (\<Union>x \<in> set xs. S x) tbl1 imp1 tbl' imp'"
    using Cons.prems(1) rest by (intro Cons.IH) auto
  from refines_trans [OF first this] show ?case by simp
qed

lemma refine_position_refines:
  assumes "refine_position compute allowed re i (tbl, imp) = Inr (tbl', imp')"
  shows "refines_to compute (pos_substs allowed re i) tbl imp tbl' imp'"
proof -
  have "refines_to compute (\<Union>l \<in> set allowed. if l = re ! i then {} else {(re, i, l)})
          tbl imp tbl' imp'"
  proof (rule fold_err_refines)
    fix l t m t' m'
    assume "(if l = re ! i then Inr (t, m) else refine_subst compute re i l (t, m)) = Inr (t', m')"
    then show "refines_to compute (if l = re ! i then {} else {(re, i, l)}) t m t' m'"
      by (cases "l = re ! i") (auto simp: refines_refl refine_subst_refines)
  next
    from assms show "fold_err (\<lambda>new_letter st.
                 if new_letter = re ! i then Inr st
                 else refine_subst compute re i new_letter st) allowed (tbl, imp) = Inr (tbl', imp')"
      by (simp add: refine_position_def)
  qed
  moreover have "(\<Union>l \<in> set allowed. if l = re ! i then {} else {(re, i, l)})
       = pos_substs allowed re i"
    by (auto simp: pos_substs_def split: if_splits)
  ultimately show ?thesis by simp
qed

lemma refine_positions_refines:
  assumes "fold_err (refine_position compute allowed re) [0..<length re] (tbl, imp) = Inr (tbl', imp')"
  shows "refines_to compute (cand_substs allowed re) tbl imp tbl' imp'"
proof -
  have "refines_to compute (\<Union>i \<in> set [0..<length re]. pos_substs allowed re i) tbl imp tbl' imp'"
  proof (rule fold_err_refines)
    fix i t m t' m'
    assume "refine_position compute allowed re i (t, m) = Inr (t', m')"
    then show "refines_to compute (pos_substs allowed re i) t m t' m'"
      by (rule refine_position_refines)
  next
    from assms show "fold_err (refine_position compute allowed re) [0..<length re] (tbl, imp)
        = Inr (tbl', imp')" .
  qed
  moreover have "(\<Union>i \<in> set [0..<length re]. pos_substs allowed re i) = cand_substs allowed re"
    by (auto simp: cand_substs_def pos_substs_def)
  ultimately show ?thesis by simp
qed

lemma refine_candidate_refines:
  assumes "refine_candidate compute allowed re (tbl, dn, imp) = Inr (tbl', dn', imp')"
  shows "refines_to compute (if dn re = None then cand_substs allowed re else {}) tbl imp tbl' imp'
         \<and> dn' = (if dn re = None then dn(re \<mapsto> 1) else dn)"
proof (cases "dn re")
  case (Some a)
  with assms have "tbl' = tbl" "imp' = imp" "dn' = dn"
    by (auto simp: refine_candidate_def)
  with Some refines_refl [of compute tbl imp] show ?thesis
    by (simp del: Collect_empty_eq)
next
  case None
  with assms obtain t m where run: "fold_err (refine_position compute allowed re) [0..<length re]
        (tbl, imp) = Inr (t, m)"
    by (cases "fold_err (refine_position compute allowed re) [0..<length re] (tbl, imp)")
       (auto simp: refine_candidate_def)
  with assms None have "tbl' = t" "imp' = m" "dn' = dn(re \<mapsto> 1)"
    by (auto simp: refine_candidate_def)
  with refine_positions_refines [OF run] None show ?thesis by simp
qed

lemma refine_round_refines:
  "fold_err (refine_candidate compute allowed) cands (tbl, dn, imp) = Inr (tbl', dn', imp') \<Longrightarrow>
     refines_to compute (round_substs allowed dn cands) tbl imp tbl' imp'
     \<and> (\<forall>re. dn' re \<noteq> None \<longleftrightarrow> dn re \<noteq> None \<or> re \<in> set cands)"
proof (induction cands arbitrary: tbl dn imp)
  case Nil
  have "round_substs allowed dn [] = {}"
    by (auto simp: round_substs_def)
  with Nil refines_refl [of compute tbl imp] show ?case
    by auto
next
  case (Cons c cands)
  from Cons.prems obtain t1 d1 m1
    where s1: "refine_candidate compute allowed c (tbl, dn, imp) = Inr (t1, d1, m1)"
      and rest: "fold_err (refine_candidate compute allowed) cands (t1, d1, m1) = Inr (tbl', dn', imp')"
    by (cases "refine_candidate compute allowed c (tbl, dn, imp)") auto
  from refine_candidate_refines [OF s1]
  have first: "refines_to compute (if dn c = None then cand_substs allowed c else {}) tbl imp t1 m1"
    and d1: "d1 = (if dn c = None then dn(c \<mapsto> 1) else dn)"
    by simp_all
  from Cons.IH [OF rest]
  have second: "refines_to compute (round_substs allowed d1 cands) t1 m1 tbl' imp'"
    and dn': "\<forall>re. dn' re \<noteq> None \<longleftrightarrow> d1 re \<noteq> None \<or> re \<in> set cands"
    by simp_all
  have sets: "(if dn c = None then cand_substs allowed c else {}) \<union> round_substs allowed d1 cands
      = round_substs allowed dn (c # cands)"
    unfolding d1 by (auto simp: cand_substs_def round_substs_def split: if_splits)
  from refines_trans [OF first second] sets
  have "refines_to compute (round_substs allowed dn (c # cands)) tbl imp tbl' imp'"
    by simp
  moreover from dn' d1 have "\<forall>re. dn' re \<noteq> None \<longleftrightarrow> dn re \<noteq> None \<or> re \<in> set (c # cands)"
    by (auto split: if_splits)
  ultimately show ?case by simp
qed

lemma new_pvalue_of_exact:
  "new_pvalue_of fet ham pos neg (-1) given_only = (\<lambda>new_re. compute_exact_re_enrichment fet new_re pos neg given_only)"
  by (simp add: new_pvalue_of_def fun_eq_iff)

lemma compute_exact_total:
  assumes "set w \<subseteq> iupac"
  shows "\<exists>r. compute_exact_re_enrichment fet w pos neg g = Inr r"
proof -
  from make_dna_re_total [OF assms] obtain ms where "make_dna_re w g False = Inr ms"
    by blast
  then show ?thesis
    by (simp add: compute_exact_re_enrichment_def count_seqs_matching_iupac_re_def Let_def)
qed

lemma subst_letter_iupac:
  assumes "set re \<subseteq> iupac" and "l \<in> iupac"
  shows "set (subst_letter re i l) \<subseteq> iupac"
proof -
  have "set (take i re) \<subseteq> set re" "set (drop (i + 1) re) \<subseteq> set re"
    by (rule set_take_subset, rule set_drop_subset)
  with assms show ?thesis
    by (auto simp: subst_letter_def)
qed

lemma refines_has_cands:
  "refines_to compute S tbl imp tbl' imp' \<Longrightarrow> has_cands cands tbl \<Longrightarrow> has_cands cands tbl'"
  unfolding has_cands_def using refines_keep by fastforce

lemma fold_err_total:
  assumes "\<And>x s. x \<in> set xs \<Longrightarrow> I s \<Longrightarrow> \<exists>s'. f x s = Inr s' \<and> I s'"
    and "I s"
  shows "\<exists>s'. fold_err f xs s = Inr s' \<and> I s'"
  using assms
proof (induction xs arbitrary: s)
  case Nil
  then show ?case by simp
next
  case (Cons x xs)
  from Cons.prems obtain s1 where s1: "f x s = Inr s1" "I s1"
    by (meson list.set_intros(1))
  have "\<exists>s'. fold_err f xs s1 = Inr s' \<and> I s'"
    using Cons.prems(1) s1(2) by (intro Cons.IH) auto
  with s1 show ?case by simp
qed

lemma refine_subst_total:
  assumes "has_cands cands tbl" and "re \<in> set cands" and "set re \<subseteq> iupac" and "l \<in> iupac"
  shows "\<exists>s'. refine_subst (\<lambda>w. compute_exact_re_enrichment fet w pos neg g) re i l (tbl, imp) = Inr s'
           \<and> has_cands cands (fst s')"
proof -
  let ?c = "\<lambda>w. compute_exact_re_enrichment fet w pos neg g"
  from assms(1,2) obtain parent where parent: "tbl re = Some parent"
    by (auto simp: has_cands_def)
  from compute_exact_total [OF subst_letter_iupac [OF assms(3,4)]] obtain r
    where r: "?c (subst_letter re i l) = Inr r" by blast
  from parent r obtain tbl' imp' where run: "refine_subst ?c re i l (tbl, imp) = Inr (tbl', imp')"
    by (cases "tbl (py_min (subst_letter re i l) (get_rc (subst_letter re i l)))")
       (auto simp: refine_subst_def Let_def)
  from refines_has_cands [OF refine_subst_refines [OF run] assms(1)] run show ?thesis
    by simp
qed

lemma refine_position_total:
  assumes "has_cands cands tbl" and "re \<in> set cands" and "set re \<subseteq> iupac"
    and "set allowed \<subseteq> iupac"
  shows "\<exists>s'. refine_position (\<lambda>w. compute_exact_re_enrichment fet w pos neg g) allowed re i (tbl, imp)
             = Inr s' \<and> has_cands cands (fst s')"
  unfolding refine_position_def
proof (rule fold_err_total [where I = "\<lambda>s. has_cands cands (fst s)"])
  fix l and s :: "re_table \<times> re_table"
  assume l: "l \<in> set allowed" and inv: "has_cands cands (fst s)"
  obtain t m where s: "s = (t, m)" by (cases s)
  from l assms(4) have "l \<in> iupac" by auto
  from refine_subst_total [OF _ assms(2,3) this, of t fet pos neg g i m] inv s
  show "\<exists>s'. (if l = re ! i then Inr s
               else refine_subst (\<lambda>w. compute_exact_re_enrichment fet w pos neg g) re i l s) = Inr s'
             \<and> has_cands cands (fst s')"
    by (cases "l = re ! i") auto
next
  from assms(1) show "has_cands cands (fst (tbl, imp))" by simp
qed

lemma refine_candidate_total:
  assumes "has_cands cands tbl" and "re \<in> set cands" and "set re \<subseteq> iupac"
    and "set allowed \<subseteq> iupac"
  shows "\<exists>s'. refine_candidate (\<lambda>w. compute_exact_re_enrichment fet w pos neg g) allowed re
               (tbl, dn, imp) = Inr s' \<and> has_cands cands (fst s')"
proof (cases "dn re")
  case (Some a)
  with assms(1) show ?thesis by (simp add: refine_candidate_def)
next
  case None
  let ?c = "\<lambda>w. compute_exact_re_enrichment fet w pos neg g"
  have "\<exists>s'. fold_err (refine_position ?c allowed re) [0..<length re] (tbl, imp) = Inr s'
          \<and> has_cands cands (fst s')"
  proof (rule fold_err_total [where I = "\<lambda>s. has_cands cands (fst s)"])
    fix i and s :: "re_table \<times> re_table"
    assume inv: "has_cands cands (fst s)"
    obtain t m where s: "s = (t, m)" by (cases s)
    from refine_position_total [OF _ assms(2,3,4), of t fet pos neg g i m] inv s
    show "\<exists>s'. refine_position ?c allowed re i s = Inr s' \<and> has_cands cands (fst s')"
      by simp
  next
    from assms(1) show "has_cands cands (fst (tbl, imp))" by simp
  qed
  then obtain t m where "fold_err (refine_position ?c allowed re) [0..<length re] (tbl, imp)
      = Inr (t, m)" "has_cands cands t"
    by auto
  with None show ?thesis by (simp add: refine_candidate_def)
qed

lemma re_refine_total:
  assumes "set candidates \<subseteq> dom re_pvalues" and "\<forall>re \<in> set candidates. set re \<subseteq> iupac"
    and "set allowed \<subseteq> iupac"
  shows "\<exists>result. re_refine fet ham re_pvalues candidates dn allowed pos neg (-1) g = Inr result"
proof -
  let ?c = "\<lambda>w. compute_exact_re_enrichment fet w pos neg g"
  have "\<exists>s'. fold_err (refine_candidate ?c allowed) candidates (re_pvalues, dn, Map.empty) = Inr s'
          \<and> has_cands candidates (fst s')"
  proof (rule fold_err_total [where I = "\<lambda>s. has_cands candidates (fst s)"])
    fix re and s :: "re_table \<times> (string \<rightharpoonup> int) \<times> re_table"
    assume re: "re \<in> set candidates" and inv: "has_cands candidates (fst s)"
    obtain t d m where s: "s = (t, d, m)" by (cases s)
    from re assms(2) have "set re \<subseteq> iupac" by auto
    from refine_candidate_total [OF _ re this assms(3), of t fet pos neg g d m] inv s
    show "\<exists>s'. refine_candidate ?c allowed re s = Inr s' \<and> has_cands candidates (fst s')"
      by simp
  next
    from assms(1) show "has_cands candidates (fst (re_pvalues, dn, Map.empty))"
      by (auto simp: has_cands_def)
  qed
  then show ?thesis
    by (auto simp: re_refine_def new_pvalue_of_exact)
qed


lemma re_refine_round_props:
  assumes "re_refine fet ham re_pvalues candidates done_re_list allowed_letters pos neg (-1) given_only
             = Inr (tbl', done', improved)"
  shows "(\<forall>k r. re_pvalues k = Some r \<longrightarrow> tbl' k = Some r \<and> improved k = None)
       \<and> (\<forall>k. tbl' k = None \<longrightarrow> improved k = None)
       \<and> (\<forall>re. done' re \<noteq> None \<longleftrightarrow> done_re_list re \<noteq> None \<or> re \<in> set candidates)
       \<and> (\<forall>re i l. re \<in> set candidates \<and> done_re_list re = None \<and> i < length re
              \<and> l \<in> set allowed_letters \<and> l \<noteq> re ! i
              \<longrightarrow> tbl' (canonical (subst_letter re i l)) \<noteq> None)
       \<and> (\<forall>k r. re_pvalues k = None \<and> tbl' k = Some r \<longrightarrow>
              (\<exists>re i l parent. re \<in> set candidates \<and> done_re_list re = None \<and> i < length re
                  \<and> l \<in> set allowed_letters \<and> l \<noteq> re ! i
                  \<and> k = canonical (subst_letter re i l)
                  \<and> compute_exact_re_enrichment fet (subst_letter re i l) pos neg given_only = Inr r
                  \<and> tbl' re = Some parent
                  \<and> improved k = (if pv_log_pvalue r < pv_log_pvalue parent then Some r else None)))"
proof -
  let ?compute = "\<lambda>new_re. compute_exact_re_enrichment fet new_re pos neg given_only"
  from assms have run: "fold_err (refine_candidate ?compute allowed_letters) candidates
      (re_pvalues, done_re_list, Map.empty) = Inr (tbl', done', improved)"
    by (simp add: re_refine_def new_pvalue_of_exact)
  from refine_round_refines [OF run]
  have rel: "refines_to ?compute (round_substs allowed_letters done_re_list candidates)
               re_pvalues Map.empty tbl' improved"
    and dn: "\<forall>re. done' re \<noteq> None \<longleftrightarrow> done_re_list re \<noteq> None \<or> re \<in> set candidates"
    by simp_all
  have c1: "tbl' k = Some r \<and> improved k = None" if "re_pvalues k = Some r" for k r
    using refines_keep [OF rel that] by simp
  have c2: "improved k = None" if "tbl' k = None" for k
    using refines_unknown [OF rel that] by simp
  have c4: "tbl' (canonical (subst_letter re i l)) \<noteq> None"
    if "re \<in> set candidates \<and> done_re_list re = None \<and> i < length re
          \<and> l \<in> set allowed_letters \<and> l \<noteq> re ! i" for re i l
  proof -
    from that have "(re, i, l) \<in> round_substs allowed_letters done_re_list candidates"
      by (simp add: round_substs_def)
    from refines_covered [OF rel this] show ?thesis by auto
  qed
  have c5: "\<exists>re i l parent. re \<in> set candidates \<and> done_re_list re = None \<and> i < length re
                  \<and> l \<in> set allowed_letters \<and> l \<noteq> re ! i
                  \<and> k = canonical (subst_letter re i l)
                  \<and> compute_exact_re_enrichment fet (subst_letter re i l) pos neg given_only = Inr r
                  \<and> tbl' re = Some parent
                  \<and> improved k = (if pv_log_pvalue r < pv_log_pvalue parent then Some r else None)"
    if "re_pvalues k = None \<and> tbl' k = Some r" for k r
  proof -
    from that have a: "re_pvalues k = None" and b: "tbl' k = Some r" by simp_all
    from refines_new [OF rel a b] obtain re i l parent
      where w: "(re, i, l) \<in> round_substs allowed_letters done_re_list candidates"
        "k = canonical (subst_letter re i l)"
        "compute_exact_re_enrichment fet (subst_letter re i l) pos neg given_only = Inr r"
        "tbl' re = Some parent"
        "improved k = (if pv_log_pvalue r < pv_log_pvalue parent then Some r else Map.empty k)"
      by blast
    from w(1) have "re \<in> set candidates \<and> done_re_list re = None \<and> i < length re
                  \<and> l \<in> set allowed_letters \<and> l \<noteq> re ! i"
      by (simp add: round_substs_def)
    with w show ?thesis
      by (intro exI [of _ re] exI [of _ i] exI [of _ l] exI [of _ parent]) simp
  qed
  from c1 c2 dn c4 c5 show ?thesis by blast
qed

text \<open>
  Claim C5, as amended. A round of exact refinement returns without an exception when
  every candidate is in the pattern table and the candidates and the allowed letters are
  made of IUPAC letters. Whenever it returns, every candidate has become refined, and for
  every candidate not refined before, every substitution of one position by an allowed
  letter different from the current letter has a record under its canonical key in the
  pattern table. A record is computed only for a key that was not in the table: the
  records already in the table are kept as they are and never enter the table of improved
  patterns. Every record that is new in the table is the exact enrichment record of such
  a substitution, and it is in the table of improved patterns exactly when its log
  p-value is strictly smaller than that of the candidate it was substituted from.
\<close>

theorem re_refine_round:
  "(set candidates \<subseteq> dom re_pvalues \<and> (\<forall>re \<in> set candidates. set re \<subseteq> iupac)
      \<and> set allowed_letters \<subseteq> iupac \<longrightarrow>
      (\<exists>result. re_refine fet ham re_pvalues candidates done_re_list allowed_letters pos neg (-1)
                  given_only = Inr result))
   \<and> (\<forall>tbl' done' improved.
        re_refine fet ham re_pvalues candidates done_re_list allowed_letters pos neg (-1) given_only
          = Inr (tbl', done', improved) \<longrightarrow>
        (\<forall>k r. re_pvalues k = Some r \<longrightarrow> tbl' k = Some r \<and> improved k = None)
         \<and> (\<forall>k. tbl' k = None \<longrightarrow> improved k = None)
         \<and> (\<forall>re. done' re \<noteq> None \<longleftrightarrow> done_re_list re \<noteq> None \<or> re \<in> set candidates)
         \<and> (\<forall>re i l. re \<in> set candidates \<and> done_re_list re = None \<and> i < length re
                \<and> l \<in> set allowed_letters \<and> l \<noteq> re ! i
                \<longrightarrow> tbl' (canonical (subst_letter re i l)) \<noteq> None)
         \<and> (\<forall>k r. re_pvalues k = None \<and> tbl' k = Some r \<longrightarrow>
                (\<exists>re i l parent. re \<in> set candidates \<and> done_re_list re = None \<and> i < length re
                    \<and> l \<in> set allowed_letters \<and> l \<noteq> re ! i
                    \<and> k = canonical (subst_letter re i l)
                    \<and> compute_exact_re_enrichment fet (subst_letter re i l) pos neg given_only = Inr r
                    \<and> tbl' re = Some parent
                    \<and> improved k = (if pv_log_pvalue r < pv_log_pvalue parent then Some r else None))))"
proof (rule conjI)
  show "set candidates \<subseteq> dom re_pvalues \<and> (\<forall>re \<in> set candidates. set re \<subseteq> iupac)
      \<and> set allowed_letters \<subseteq> iupac \<longrightarrow>
      (\<exists>result. re_refine fet ham re_pvalues candidates done_re_list allowed_letters pos neg (-1)
                  given_only = Inr result)"
  proof (rule impI)
    assume "set candidates \<subseteq> dom re_pvalues \<and> (\<forall>re \<in> set candidates. set re \<subseteq> iupac)
      \<and> set allowed_letters \<subseteq> iupac"
    then show "\<exists>result. re_refine fet ham re_pvalues candidates done_re_list allowed_letters pos
        neg (-1) given_only = Inr result"
      by (intro re_refine_total) simp_all
  qed
qed (intro allI impI, erule re_refine_round_props)

lemma compute_example:
  "compute_exact_re_enrichment (\<lambda>a b c d. (0, 0, 0, 0, -9)) ''C'' [''C'', ''A''] [''A''] False
     = Inr (mk_rec 1 2 0 1 (-9))"
  by (simp add: compute_exact_re_enrichment_def count_seqs_matching_iupac_re_def make_dna_re_def
      get_rc_def translate_rc_def rc_table_def ambig_to_dna_def re_search_def match_here_def
      getLogPvalue_def getLogPvalue_traced_def fet_index4_def mk_rec_def Let_def)

lemma refine_known_example:
  "refine_view (re_refine (\<lambda>a b c d. (0, 0, 0, 0, -9)) (\<lambda>r p n g. Inl ValueError)
       [''A'' \<mapsto> mk_rec 1 2 1 2 (-1), ''C'' \<mapsto> mk_rec 9 10 0 10 (-5)]
       [''A''] Map.empty ''AC'' [''C'', ''A''] [''A''] (-1) False) [''A'', ''C'']
    = Some [(''A'', Some (mk_rec 1 2 1 2 (-1)), Some 1, None),
            (''C'', Some (mk_rec 9 10 0 10 (-5)), None, None)]"
  by (simp add: refine_view_def re_refine_def refine_candidate_def refine_position_def
      refine_subst_def subst_letter_def py_min_def get_rc_def translate_rc_def rc_table_def
      mk_rec_def Let_def less_char_def)

lemma refine_new_example:
  "refine_view (re_refine (\<lambda>a b c d. (0, 0, 0, 0, -9)) (\<lambda>r p n g. Inl ValueError)
       [''A'' \<mapsto> mk_rec 1 2 1 2 (-1)]
       [''A''] Map.empty ''AC'' [''C'', ''A''] [''A''] (-1) False) [''A'', ''C'']
    = Some [(''A'', Some (mk_rec 1 2 1 2 (-1)), Some 1, None),
            (''C'', Some (mk_rec 1 2 0 1 (-9)), None, Some (mk_rec 1 2 0 1 (-9)))]"
  by (simp add: refine_view_def re_refine_def refine_candidate_def refine_position_def
      refine_subst_def subst_letter_def py_min_def get_rc_def translate_rc_def rc_table_def
      new_pvalue_of_def compute_exact_re_enrichment_def count_seqs_matching_iupac_re_def
      make_dna_re_def ambig_to_dna_def re_search_def match_here_def
      getLogPvalue_def getLogPvalue_traced_def fet_index4_def
      mk_rec_def Let_def less_char_def)

theorem re_refine_round_witness:
  "\<exists>tbl' done' improved.
     re_refine (\<lambda>a b c d. (0, 0, 0, 0, -9)) (\<lambda>r p n g. Inl ValueError)
       [''A'' \<mapsto> mk_rec 1 2 1 2 (-1)]
       [''A''] Map.empty ''AC'' [''C'', ''A''] [''A''] (-1) False = Inr (tbl', done', improved)
     \<and> tbl' ''A'' = Some (mk_rec 1 2 1 2 (-1)) \<and> improved ''A'' = None
     \<and> done' ''A'' \<noteq> None
     \<and> tbl' (canonical (subst_letter ''A'' 0 (CHR ''C''))) \<noteq> None
     \<and> tbl' ''C'' = Some (mk_rec 1 2 0 1 (-9)) \<and> improved ''C'' = Some (mk_rec 1 2 0 1 (-9))"
proof -
  let ?run = "re_refine (\<lambda>a b c d. (0, 0, 0, 0, -9)) (\<lambda>r p n g. Inl ValueError)
       [''A'' \<mapsto> mk_rec 1 2 1 2 (-1)]
       [''A''] Map.empty ''AC'' [''C'', ''A''] [''A''] (-1) False"
  from refine_new_example obtain tbl' done' improved
    where run: "?run = Inr (tbl', done', improved)"
      and c: "tbl' ''C'' = Some (mk_rec 1 2 0 1 (-9))" "improved ''C'' = Some (mk_rec 1 2 0 1 (-9))"
    by (cases ?run) (auto simp: refine_view_def)
  note round = re_refine_round [THEN conjunct2, rule_format, OF run]
  have pre: "set [''A''] \<subseteq> dom [''A'' \<mapsto> mk_rec 1 2 1 2 (-1)]
      \<and> (\<forall>re \<in> set [''A'']. set re \<subseteq> iupac) \<and> set ''AC'' \<subseteq> iupac"
    by (simp add: iupac_def)
  from re_refine_round [THEN conjunct1, rule_format, OF pre]
  have returns: "\<exists>result. ?run = Inr result" .
  have known: "[''A'' \<mapsto> mk_rec 1 2 1 2 (-1)] ''A'' = Some (mk_rec 1 2 1 2 (-1))"
    by simp
  from round known have a: "tbl' ''A'' = Some (mk_rec 1 2 1 2 (-1)) \<and> improved ''A'' = None"
    by blast
  have cand: "''A'' \<in> set [''A'']" by simp
  from round cand have d: "done' ''A'' \<noteq> None"
    by blast
  have sub: "''A'' \<in> set [''A''] \<and> (Map.empty :: string \<rightharpoonup> int) ''A'' = None \<and> 0 < length ''A''
      \<and> CHR ''C'' \<in> set ''AC'' \<and> CHR ''C'' \<noteq> ''A'' ! 0"
    by simp
  from round sub have k: "tbl' (canonical (subst_letter ''A'' 0 (CHR ''C''))) \<noteq> None"
    by blast
  from run a d k c show ?thesis by blast
qed

text \<open>
  Claim C5 as stated fails: the substitution of \<open>A\<close> by \<open>C\<close> has a key that is already
  in the pattern table, so its record is not computed (the table keeps the old record,
  which differs from the exact one) and it does not enter the table of improved patterns,
  although its log p-value, old or exact, is strictly smaller than its parent's.
\<close>

theorem re_refine_round_counterexample:
  "refine_view (re_refine (\<lambda>a b c d. (0, 0, 0, 0, -9)) (\<lambda>r p n g. Inl ValueError)
       [''A'' \<mapsto> mk_rec 1 2 1 2 (-1), ''C'' \<mapsto> mk_rec 9 10 0 10 (-5)]
       [''A''] Map.empty ''AC'' [''C'', ''A''] [''A''] (-1) False) [''A'', ''C'']
    = Some [(''A'', Some (mk_rec 1 2 1 2 (-1)), Some 1, None),
            (''C'', Some (mk_rec 9 10 0 10 (-5)), None, None)]
   \<and> canonical (subst_letter ''A'' 0 (CHR ''C'')) = ''C''
   \<and> compute_exact_re_enrichment (\<lambda>a b c d. (0, 0, 0, 0, -9)) ''C'' [''C'', ''A''] [''A''] False
       = Inr (mk_rec 1 2 0 1 (-9))
   \<and> pv_log_pvalue (mk_rec 9 10 0 10 (-5)) < pv_log_pvalue (mk_rec 1 2 1 2 (-1))
   \<and> pv_log_pvalue (mk_rec 1 2 0 1 (-9)) < pv_log_pvalue (mk_rec 1 2 1 2 (-1))"
  using refine_known_example compute_example
  by (simp add: canonical_def subst_letter_def py_min_def get_rc_def translate_rc_def
      rc_table_def mk_rec_def less_char_def)

end
